theory Spec2Isabelle
  imports Main
begin

section \<open>The type graph supplied by the TypeScript compiler\<close>

text \<open>
  \<open>getSchemaByType\<close> (src/lib/transformer/util/getSchemaByType.ts) walks objects of the
  TypeScript compiler API. A \<open>ts.Type\<close> object is compared by identity (\<open>c.type === type\<close>)
  and may reach itself through its members, so a type is an identity \<open>tid\<close> and the compiler's
  objects are a table from identities to the fields and method results the code reads.
\<close>

type_synonym tid = nat

text \<open>
  \<open>t.value\<close> of a literal type: a string, a number, or absent. The code only copies the
  value, so a number stands as an integer.
\<close>

datatype literal = StringValue string | NumberValue int | NoValue

text \<open>\<open>m.kind\<close> of a declaration modifier, as far as line 167 tells them apart.\<close>

datatype modifier = PrivateKeyword | ProtectedKeyword | OtherKeyword

text \<open>The syntax kind of a declaration, as far as lines 184 to 186 tell them apart.\<close>

datatype declKind = MethodDeclaration | MethodSignature | ArrowFunction | OtherDeclaration

record tsDeclaration =
  modifiers :: "modifier list option"
  questionToken :: bool
  declKind :: declKind
  typeAtLocation :: tid \<comment> \<open>\<open>config.typeChecker.getTypeAtLocation(declaration)\<close>\<close>

record tsSymbol =
  escapedName :: string
  valueDeclaration :: "tsDeclaration option"
  symbolComment :: "string option" \<comment> \<open>\<open>getComment(symbol)\<close>\<close>
  targetType :: "tid option" \<comment> \<open>\<open>getValue(() => symbol.type || symbol.target.type)\<close>\<close>

record tsType =
  symbolName :: "string option" \<comment> \<open>\<open>type.symbol.escapedName\<close>; \<open>None\<close> when there is no symbol\<close>
  symbolIsArrow :: bool \<comment> \<open>\<open>type.symbol.valueDeclaration\<close> exists and is an arrow function\<close>
  typeArguments :: "tid list option"
  typeComment :: string \<comment> \<open>\<open>getComment(type.type || type)\<close>; empty when there is none\<close>
  isArrayType :: bool \<comment> \<open>\<open>isArrayType(type)\<close>\<close>
  flagBoolean :: bool \<comment> \<open>\<open>type.flags & ts.TypeFlags.Boolean\<close>\<close>
  flagEnumLiteral :: bool \<comment> \<open>\<open>type.flags & ts.TypeFlags.EnumLiteral\<close>\<close>
  isUnion :: bool
  isIntersection :: bool
  memberTypes :: "tid list" \<comment> \<open>\<open>types\<close> of a union or intersection type\<close>
  literalValue :: literal
  isClassOrInterface :: bool
  flagAnonymous :: bool \<comment> \<open>\<open>objectFlags & ts.ObjectFlags.Anonymous\<close>\<close>
  numberIndexType :: "tid option"
  stringIndexType :: "tid option"
  getProperties :: "tsSymbol list"
  typeToString :: string \<comment> \<open>\<open>typeChecker.typeToString(type)\<close>\<close>

type_synonym typeTable = "tid \<Rightarrow> tsType"

section \<open>Schema objects\<close>

text \<open>
  A \<open>SchemaObject\<close> or \<open>ReferenceObject\<close> as the code builds it, one constructor for each
  object literal of the source. The first field of every constructor is \<open>description\<close>
  (\<open>None\<close> when the key is absent or undefined).
  \<^item> \<open>ArraySchema d items\<close> is \<open>{type: 'array', items}\<close>;
  \<^item> \<open>TypeSchema d type format\<close> is \<open>{type}\<close> or \<open>{type, format}\<close>;
  \<^item> \<open>EnumSchema d values\<close> is \<open>{type: 'string', enum: values}\<close>;
  \<^item> \<open>OneOfSchema d members\<close> is \<open>{type: 'object', oneOf: members}\<close>;
  \<^item> \<open>AllOfSchema d members\<close> is \<open>{type: 'object', allOf: members}\<close>;
  \<^item> \<open>ObjectSchema d properties required additionalProperties\<close> is
    \<open>{type: 'object', properties, required}\<close>, with \<open>additionalProperties\<close> when set;
  \<^item> \<open>RefSchema d ref\<close> is \<open>{$ref: ref}\<close>.
\<close>

datatype schema =
    ArraySchema "string option" schema
  | TypeSchema "string option" string "string option"
  | EnumSchema "string option" "literal list"
  | OneOfSchema "string option" "schema list"
  | AllOfSchema "string option" "schema list"
  | ObjectSchema "string option" "(string \<times> schema) list" "string list" "schema option"
  | RefSchema "string option" string

fun description :: "schema \<Rightarrow> string option" where
  "description (ArraySchema d x) = d"
| "description (TypeSchema d t f) = d"
| "description (EnumSchema d vs) = d"
| "description (OneOfSchema d xs) = d"
| "description (AllOfSchema d xs) = d"
| "description (ObjectSchema d ps rq ad) = d"
| "description (RefSchema d r) = d"

text \<open>\<open>{description: c, ...value}\<close>: the description of \<open>value\<close> wins when it has one.\<close>

fun withDescription :: "string option \<Rightarrow> schema \<Rightarrow> schema" where
  "withDescription c (ArraySchema d x) = ArraySchema (case d of None \<Rightarrow> c | Some y \<Rightarrow> Some y) x"
| "withDescription c (TypeSchema d t f) = TypeSchema (case d of None \<Rightarrow> c | Some y \<Rightarrow> Some y) t f"
| "withDescription c (EnumSchema d vs) = EnumSchema (case d of None \<Rightarrow> c | Some y \<Rightarrow> Some y) vs"
| "withDescription c (OneOfSchema d xs) = OneOfSchema (case d of None \<Rightarrow> c | Some y \<Rightarrow> Some y) xs"
| "withDescription c (AllOfSchema d xs) = AllOfSchema (case d of None \<Rightarrow> c | Some y \<Rightarrow> Some y) xs"
| "withDescription c (ObjectSchema d ps rq ad) =
     ObjectSchema (case d of None \<Rightarrow> c | Some y \<Rightarrow> Some y) ps rq ad"
| "withDescription c (RefSchema d r) = RefSchema (case d of None \<Rightarrow> c | Some y \<Rightarrow> Some y) r"

text \<open>
  \<open>obj[key] = value\<close> on an object used as a dictionary: an existing key keeps its place
  and takes the new value, a new key goes to the end. \<open>obj[key]\<close> is truthy exactly when
  the key is present, since every stored value is an object. The members that a JavaScript
  object inherits from \<open>Object.prototype\<close> (a type called \<open>toString\<close>, say) and the
  numeric order of integer-like keys are outside the model.
\<close>

fun assign :: "(string \<times> 'v) list \<Rightarrow> string \<Rightarrow> 'v \<Rightarrow> (string \<times> 'v) list" where
  "assign [] k v = [(k, v)]"
| "assign (p # ps) k v = (if fst p = k then (k, v) # ps else p # assign ps k v)"

definition hasKey :: "(string \<times> 'v) list \<Rightarrow> string \<Rightarrow> bool" where
  "hasKey obj k = (k \<in> set (map fst obj))"

section \<open>The traversal state\<close>

record 'h TypeCache =
  typeName :: string
  schemaName :: string
  cachedType :: tid \<comment> \<open>the field \<open>type\<close>\<close>
  hashCode :: "'h option"

text \<open>
  The two objects of \<open>GetSchemaConfig\<close> that every call shares and mutates. The flag
  \<open>extendClass\<close> is copied with each \<open>{...config, extendClass: b}\<close> and is an argument.
\<close>

record 'h config =
  schemaObjects :: "(string \<times> schema) list"
  typeCache :: "'h TypeCache list"

datatype error = TypeError

text \<open>
  A call returns \<open>None\<close> when the recursion budget runs out, \<open>Some (Inl e, s)\<close> when it
  throws \<open>e\<close>, leaving the shared objects as \<open>s\<close>, and \<open>Some (Inr x, s)\<close> when it returns \<open>x\<close>.
\<close>

type_synonym ('a, 'h) outcome = "((error + 'a) \<times> 'h config) option"

definition ok :: "'a \<Rightarrow> 'h config \<Rightarrow> ('a, 'h) outcome" where
  "ok x s = Some (Inr x, s)"

definition throw :: "error \<Rightarrow> 'h config \<Rightarrow> ('a, 'h) outcome" where
  "throw e s = Some (Inl e, s)"

definition andThen ::
  "('a, 'h) outcome \<Rightarrow> ('a \<Rightarrow> 'h config \<Rightarrow> ('b, 'h) outcome) \<Rightarrow> ('b, 'h) outcome" where
  "andThen m k =
     (case m of None \<Rightarrow> None | Some (Inl e, s) \<Rightarrow> Some (Inl e, s) | Some (Inr x, s) \<Rightarrow> k x s)"

section \<open>Array helpers of the JavaScript runtime\<close>

fun findIndex :: "('a \<Rightarrow> bool) \<Rightarrow> 'a list \<Rightarrow> int" where
  "findIndex p [] = - 1"
| "findIndex p (x # xs) =
     (if p x then 0 else (let r = findIndex p xs in if r < 0 then - 1 else r + 1))"

text \<open>\<open>xs.splice(i, 1)\<close>: a negative start counts from the end.\<close>

definition splice1 :: "int \<Rightarrow> 'a list \<Rightarrow> 'a list" where
  "splice1 i xs =
     (let start = (if i < 0 then max (int (length xs) + i) 0 else min i (int (length xs)))
      in take (nat start) xs @ drop (Suc (nat start)) xs)"

section \<open>Schema names\<close>

definition digitChar :: "nat \<Rightarrow> char" where
  "digitChar d = ''0123456789'' ! d"

fun digits :: "nat \<Rightarrow> string" where
  "digits n = (if n < 10 then [digitChar n] else digits (n div 10) @ [digitChar (n mod 10)])"

declare digits.simps [simp del]

text \<open>The template string \<open>`${typeName}_${i}`\<close>.\<close>

definition suffixed :: "string \<Rightarrow> nat \<Rightarrow> string" where
  "suffixed name i = name @ ''_'' @ digits i"

definition refPath :: "string \<Rightarrow> string" where
  "refPath name = ''#/components/schemas/'' @ name"


text \<open>
  The name search of lines 112 to 119: \<open>probe\<close> is the \<open>while\<close> loop started at \<open>i\<close>.
  It ends because the names \<open>suffixed name i\<close> are pairwise different and the object has
  finitely many keys.
\<close>

lemma digitChar_inj: "a < 10 \<Longrightarrow> b < 10 \<Longrightarrow> digitChar a = digitChar b \<Longrightarrow> a = b"
proof -
  assume a: "a < 10" and b: "b < 10" and e: "digitChar a = digitChar b"
  have d: "distinct ''0123456789''" by simp
  have "length ''0123456789'' = 10" by simp
  with a b d e show "a = b" unfolding digitChar_def by (metis nth_eq_iff_index_eq)
qed

lemma digits_not_Nil: "digits n \<noteq> []"
  by (subst digits.simps) simp

lemma digits_inj: "digits a = digits b \<Longrightarrow> a = b"
proof (induction a arbitrary: b rule: digits.induct)
  case (1 n)
  show ?case
  proof (cases "n < 10")
    case True
    then have n: "digits n = [digitChar n]" by (subst digits.simps) simp
    show ?thesis
    proof (cases "b < 10")
      case True
      then have "digits b = [digitChar b]" by (subst digits.simps) simp
      with n "1.prems" have "digitChar n = digitChar b" by simp
      with \<open>n < 10\<close> True show ?thesis by (rule digitChar_inj)
    next
      case False
      then have "digits b = digits (b div 10) @ [digitChar (b mod 10)]"
        by (subst digits.simps) simp
      with n "1.prems" have "digits (b div 10) = []" by simp
      then show ?thesis by (simp add: digits_not_Nil)
    qed
  next
    case False
    then have n: "digits n = digits (n div 10) @ [digitChar (n mod 10)]"
      by (subst digits.simps) simp
    show ?thesis
    proof (cases "b < 10")
      case True
      then have "digits b = [digitChar b]" by (subst digits.simps) simp
      with n "1.prems" have "digits (n div 10) = []" by simp
      then show ?thesis by (simp add: digits_not_Nil)
    next
      case b: False
      then have "digits b = digits (b div 10) @ [digitChar (b mod 10)]"
        by (subst digits.simps) simp
      with n "1.prems" have e: "digits (n div 10) = digits (b div 10)"
        and c: "digitChar (n mod 10) = digitChar (b mod 10)" by simp_all
      from "1.IH" [OF False e] have q: "n div 10 = b div 10" .
      have "n mod 10 < 10" "b mod 10 < 10" by simp_all
      then have r: "n mod 10 = b mod 10" using c by (rule digitChar_inj)
      from q r show ?thesis by (metis div_mult_mod_eq)
    qed
  qed
qed

lemma suffixed_inj: "suffixed name a = suffixed name b \<Longrightarrow> a = b"
  by (simp add: suffixed_def digits_inj)

lemma finite_suffixed_keys: "finite {j. hasKey obj (suffixed name j)}"
proof -
  have "{j. hasKey obj (suffixed name j)} = suffixed name -` set (map fst obj)"
    by (auto simp: hasKey_def)
  moreover have "finite (suffixed name -` set (map fst obj))"
    by (rule finite_vimageI) (auto simp: inj_on_def dest: suffixed_inj)
  ultimately show ?thesis by simp
qed

function probe :: "(string \<times> 'v) list \<Rightarrow> string \<Rightarrow> nat \<Rightarrow> nat" where
  "probe obj name i = (if hasKey obj (suffixed name i) then probe obj name (Suc i) else i)"
  by pat_completeness auto
termination
proof (relation "measure (\<lambda>(obj, name, i). card {j. i \<le> j \<and> hasKey obj (suffixed name j)})")
  show "wf (measure (\<lambda>(obj :: (string \<times> 'v) list, name, i).
      card {j. i \<le> j \<and> hasKey obj (suffixed name j)}))"
    by simp
next
  fix obj :: "(string \<times> 'v) list" and name i
  assume k: "hasKey obj (suffixed name i)"
  have fin: "finite {j. i \<le> j \<and> hasKey obj (suffixed name j)}"
    by (rule finite_subset [OF _ finite_suffixed_keys [of obj name]]) auto
  have "i \<in> {j. i \<le> j \<and> hasKey obj (suffixed name j)}"
    and "i \<notin> {j. Suc i \<le> j \<and> hasKey obj (suffixed name j)}"
    using k by simp_all
  moreover have "{j. Suc i \<le> j \<and> hasKey obj (suffixed name j)}
      \<subseteq> {j. i \<le> j \<and> hasKey obj (suffixed name j)}"
    by auto
  ultimately have "{j. Suc i \<le> j \<and> hasKey obj (suffixed name j)}
      \<subset> {j. i \<le> j \<and> hasKey obj (suffixed name j)}"
    by blast
  with fin have "card {j. Suc i \<le> j \<and> hasKey obj (suffixed name j)}
      < card {j. i \<le> j \<and> hasKey obj (suffixed name j)}"
    by (rule psubset_card_mono)
  then show "((obj, name, Suc i), (obj, name, i))
      \<in> measure (\<lambda>(obj, name, i). card {j. i \<le> j \<and> hasKey obj (suffixed name j)})"
    by simp
qed

declare probe.simps [simp del]

text \<open>Lines 112 to 119: the schema name chosen for a type called \<open>name\<close>.\<close>

definition allocateName :: "(string \<times> 'v) list \<Rightarrow> string \<Rightarrow> string" where
  "allocateName obj name =
     (if hasKey obj name then suffixed name (probe obj name 1) else name)"


section \<open>The traversal\<close>

text \<open>
  Helpers that are imported by the source file but are not part of it enter the model as
  follows. \<open>getValue(f)\<close> evaluates \<open>f\<close> and yields \<open>undefined\<close> when a property access
  inside fails, so its results are the optional fields \<open>symbolName\<close> and \<open>targetType\<close> and
  the flags \<open>questionToken\<close> and \<open>symbolIsArrow\<close>. \<open>getComment\<close> and \<open>isArrayType\<close> are
  fields of the table. \<open>getHashCode\<close> is the parameter \<open>hash\<close> of the traversal, any
  function of the schema object.
\<close>

text \<open>
  Lines 26 to 28. A type whose symbol is called \<open>Promise\<close> is replaced by its first type
  argument, once. Without type arguments \<open>typeArguments[0]\<close> throws; with an empty
  list \<open>type\<close> becomes \<open>undefined\<close> and line 31 throws.
\<close>

definition unwrapPromise :: "typeTable \<Rightarrow> tid \<Rightarrow> error + tid" where
  "unwrapPromise tt t =
     (if symbolName (tt t) = Some ''Promise''
      then (case typeArguments (tt t) of Some (a # as) \<Rightarrow> Inr a | _ \<Rightarrow> Inl TypeError)
      else Inr t)"

text \<open>Lines 30 to 34: \<open>defaultSchemaObject\<close> carries the comment when there is one.\<close>

definition defaultDescription :: "tsType \<Rightarrow> string option" where
  "defaultDescription ty = (if typeComment ty = [] then None else Some (typeComment ty))"

text \<open>\<open>types.map(t => getSchemaByType(t, config))\<close>, left to right.\<close>

fun mapSchemas ::
  "(tid \<Rightarrow> 'h config \<Rightarrow> (schema, 'h) outcome) \<Rightarrow> tid list \<Rightarrow> 'h config
    \<Rightarrow> (schema list, 'h) outcome" where
  "mapSchemas rec [] s = ok [] s"
| "mapSchemas rec (t # ts) s =
     andThen (rec t s) (\<lambda>x s1. andThen (mapSchemas rec ts s1) (\<lambda>xs. ok (x # xs)))"

text \<open>Lines 162 to 169: the filter that drops private and protected members.\<close>

definition isPublic :: "tsSymbol \<Rightarrow> bool" where
  "isPublic symbol =
     (case valueDeclaration symbol of
        None \<Rightarrow> True
      | Some d \<Rightarrow>
          (case modifiers d of
             None \<Rightarrow> True
           | Some ms \<Rightarrow> \<not> list_ex (\<lambda>m. m = PrivateKeyword \<or> m = ProtectedKeyword) ms))"

text \<open>Lines 183 to 187: the member is declared as a method or an arrow function.\<close>

definition isFunctionDeclaration :: "tsSymbol \<Rightarrow> bool" where
  "isFunctionDeclaration symbol =
     (case valueDeclaration symbol of
        None \<Rightarrow> False
      | Some d \<Rightarrow> declKind d = MethodDeclaration \<or> declKind d = MethodSignature
          \<or> declKind d = ArrowFunction)"

text \<open>
  Lines 172 to 180, \<open>setProp\<close>, on the pair of \<open>schema.properties\<close> and \<open>schema.required\<close>.
\<close>

definition setProp ::
  "tsSymbol \<Rightarrow> schema \<Rightarrow> (string \<times> schema) list \<times> string list
    \<Rightarrow> (string \<times> schema) list \<times> string list" where
  "setProp symbol v acc =
     (let required = (if (case valueDeclaration symbol of None \<Rightarrow> False | Some d \<Rightarrow> questionToken d)
                      then snd acc else snd acc @ [escapedName symbol])
      in (assign (fst acc) (escapedName symbol) (withDescription (symbolComment symbol) v),
          required))"

text \<open>Lines 170 to 214: the body of \<open>forEach\<close> for one member.\<close>

definition forEachBody ::
  "(tid \<Rightarrow> 'h config \<Rightarrow> (schema, 'h) outcome) \<Rightarrow> typeTable \<Rightarrow> tsSymbol
    \<Rightarrow> (string \<times> schema) list \<times> string list \<Rightarrow> 'h config
    \<Rightarrow> ((string \<times> schema) list \<times> string list, 'h) outcome" where
  "forEachBody rec tt symbol acc s =
     (if isFunctionDeclaration symbol then ok acc s
      else case targetType symbol of
        Some target \<Rightarrow> andThen (rec target s) (\<lambda>v. ok (setProp symbol v acc))
      | None \<Rightarrow>
          (case valueDeclaration symbol of
             Some d \<Rightarrow>
               (let propType = typeAtLocation d in
                if symbolName (tt propType) = Some ''Function'' then ok acc s
                else if symbolIsArrow (tt propType) then ok acc s
                else andThen (rec propType s) (\<lambda>v. ok (setProp symbol v acc)))
           | None \<Rightarrow> ok (setProp symbol (TypeSchema None ''any'' None) acc) s))"

fun forEachSymbol ::
  "(tid \<Rightarrow> 'h config \<Rightarrow> (schema, 'h) outcome) \<Rightarrow> typeTable \<Rightarrow> tsSymbol list
    \<Rightarrow> (string \<times> schema) list \<times> string list \<Rightarrow> 'h config
    \<Rightarrow> ((string \<times> schema) list \<times> string list, 'h) outcome" where
  "forEachSymbol rec tt [] acc s = ok acc s"
| "forEachSymbol rec tt (symbol # symbols) acc s =
     andThen (forEachBody rec tt symbol acc s) (forEachSymbol rec tt symbols)"

text \<open>
  Lines 143 to 216. \<open>rec\<close> is \<open>getSchemaByType\<close> with \<open>{...config, extendClass: false}\<close>.
\<close>

definition extendClass ::
  "(tid \<Rightarrow> 'h config \<Rightarrow> (schema, 'h) outcome) \<Rightarrow> typeTable \<Rightarrow> tid \<Rightarrow> string option
    \<Rightarrow> 'h config \<Rightarrow> (schema, 'h) outcome" where
  "extendClass rec tt t d s =
     (let indexType = (case numberIndexType (tt t) of
                         Some i \<Rightarrow> Some i
                       | None \<Rightarrow> stringIndexType (tt t))
      in andThen
           (case indexType of
              None \<Rightarrow> ok None s
            | Some i \<Rightarrow> andThen (rec i s) (\<lambda>a. ok (Some a)))
           (\<lambda>additionalProperties s1.
              andThen (forEachSymbol rec tt (filter isPublic (getProperties (tt t))) ([], []) s1)
                (\<lambda>acc. ok (ObjectSchema d (fst acc) (snd acc) additionalProperties))))"

text \<open>
  Lines 100 to 141. \<open>rec\<close> is \<open>getSchemaByType\<close> with \<open>{...config, extendClass: true}\<close>.

  Line 133 reads \<open>cache.schemaName\<close>, and \<open>cache\<close> is the result of the \<open>find\<close> of line 103,
  which is \<open>undefined\<close> whenever line 110 is reached: the branch throws a TypeError after
  the \<open>splice\<close>.

  Line 135 writes to the object \<open>cacheData\<close> that line 122 pushed. No call that returns has
  removed an entry, since the only \<open>splice\<close> is followed by the throw of line 133 and nothing
  here catches it; so the object is still at the index where it was pushed (lemma
  \<open>getSchemaByType_grown\<close> below shows it of the calls of this model).
\<close>

definition addRefTypeSchema ::
  "(schema \<Rightarrow> 'h) \<Rightarrow> (tid \<Rightarrow> 'h config \<Rightarrow> (schema, 'h) outcome) \<Rightarrow> typeTable \<Rightarrow> tid
    \<Rightarrow> 'h config \<Rightarrow> (schema, 'h) outcome" where
  "addRefTypeSchema hash rec tt t s =
     (case find (\<lambda>c. cachedType c = t) (typeCache s) of
        Some cache \<Rightarrow> ok (RefSchema None (refPath (schemaName cache))) s
      | None \<Rightarrow>
          (case symbolName (tt t) of
             None \<Rightarrow> throw TypeError s
           | Some name \<Rightarrow>
               (let sname = allocateName (schemaObjects s) name;
                    cacheData = \<lparr>typeName = name, schemaName = sname, cachedType = t,
                                 hashCode = None\<rparr>;
                    pushed = length (typeCache s)
                in andThen (rec t (s\<lparr>typeCache := typeCache s @ [cacheData]\<rparr>))
                     (\<lambda>schema s2.
                        if 0 \<le> findIndex (\<lambda>c. hashCode c = Some (hash schema) \<and> typeName c = name)
                                 (typeCache s2)
                        then throw TypeError
                               (s2\<lparr>typeCache :=
                                    splice1 (findIndex (\<lambda>c. schemaName c = sname) (typeCache s2))
                                      (typeCache s2)\<rparr>)
                        else ok (RefSchema None (refPath sname))
                               (s2\<lparr>typeCache :=
                                    (typeCache s2)[pushed :=
                                       (typeCache s2 ! pushed)\<lparr>hashCode := Some (hash schema)\<rparr>],
                                   schemaObjects := assign (schemaObjects s2) sname schema\<rparr>)))))"

text \<open>
  Lines 22 to 98. The first argument bounds the depth of nested calls of
  \<open>getSchemaByType\<close>; the source has no bound and recurses for ever on a type that
  reaches itself through anonymous object types only. \<open>ext\<close> is \<open>config.extendClass\<close>.
  In the array arm, \<open>typeArguments[0]\<close> throws when there are no type arguments, and
  is \<open>undefined\<close> when the list is empty, on which the nested call throws at line 31.
\<close>

fun getSchemaByType ::
  "nat \<Rightarrow> (schema \<Rightarrow> 'h) \<Rightarrow> typeTable \<Rightarrow> bool \<Rightarrow> tid \<Rightarrow> 'h config \<Rightarrow> (schema, 'h) outcome" where
  "getSchemaByType 0 hash tt ext t0 s = None"
| "getSchemaByType (Suc n) hash tt ext t0 s =
     (case unwrapPromise tt t0 of
        Inl e \<Rightarrow> throw e s
      | Inr t \<Rightarrow>
          (let d = defaultDescription (tt t) in
           if isArrayType (tt t) then
             (case typeArguments (tt t) of
                Some (a # as) \<Rightarrow> andThen (getSchemaByType n hash tt ext a s) (\<lambda>items. ok (ArraySchema d items))
              | _ \<Rightarrow> throw TypeError s)
           else if flagBoolean (tt t) then ok (TypeSchema d ''boolean'' None) s
           else if isUnion (tt t) then
             (if list_all (\<lambda>u. flagEnumLiteral (tt u)) (memberTypes (tt t))
              then ok (EnumSchema d (map (\<lambda>u. literalValue (tt u)) (memberTypes (tt t)))) s
              else andThen (mapSchemas (getSchemaByType n hash tt ext) (memberTypes (tt t)) s)
                     (\<lambda>xs. ok (OneOfSchema d xs)))
           else if isIntersection (tt t) then
             andThen (mapSchemas (getSchemaByType n hash tt ext) (memberTypes (tt t)) s)
               (\<lambda>xs. ok (AllOfSchema d xs))
           else if isClassOrInterface (tt t) then
             (case symbolName (tt t) of
                None \<Rightarrow> throw TypeError s
              | Some name \<Rightarrow>
                  if name = ''Date'' then ok (TypeSchema d ''string'' (Some ''date'')) s
                  else if name = ''Object'' then ok (TypeSchema d ''any'' None) s
                  else if ext then extendClass (getSchemaByType n hash tt False) tt t d s
                  else addRefTypeSchema hash (getSchemaByType n hash tt True) tt t s)
           else if flagAnonymous (tt t) then extendClass (getSchemaByType n hash tt False) tt t d s
           else ok (TypeSchema d (typeToString (tt t)) None) s))"

declare getSchemaByType.simps [simp del]

section \<open>Example type tables\<close>

text \<open>
  Concrete inputs for the statements below. \<open>plainType\<close> is a type object with no symbol,
  no flags and no members; \<open>property name t\<close> is a public, required member declared with
  type \<open>t\<close>; \<open>emptyConfig\<close> is the fresh context of a root call.
\<close>

definition plainType :: tsType where
  "plainType = \<lparr>symbolName = None, symbolIsArrow = False, typeArguments = None, typeComment = [],
     isArrayType = False, flagBoolean = False, flagEnumLiteral = False, isUnion = False,
     isIntersection = False, memberTypes = [], literalValue = NoValue, isClassOrInterface = False,
     flagAnonymous = False, numberIndexType = None, stringIndexType = None, getProperties = [],
     typeToString = []\<rparr>"

definition declaredAs :: "tid \<Rightarrow> tsDeclaration" where
  "declaredAs t = \<lparr>modifiers = None, questionToken = False, declKind = OtherDeclaration,
     typeAtLocation = t\<rparr>"

definition property :: "string \<Rightarrow> tid \<Rightarrow> tsSymbol" where
  "property name t = \<lparr>escapedName = name, valueDeclaration = Some (declaredAs t),
     symbolComment = None, targetType = None\<rparr>"

definition emptyConfig :: "'h config" where
  "emptyConfig = \<lparr>schemaObjects = [], typeCache = []\<rparr>"

text \<open>
  Modelled from the spec: \<open>getHashCode\<close> (src/lib/transformer/util/getHashCode.ts is not
  among the sources) is "a structural content hash over the expanded fragment". The
  traversal takes the hash as a parameter; \<open>structuralHash\<close> is the instance that tells
  any two different fragments apart, used where a statement needs a concrete one.
\<close>

definition structuralHash :: "schema \<Rightarrow> schema" where
  "structuralHash x = x"

text \<open>
  \<open>booleanTable\<close>: the type \<open>boolean\<close> as the compiler has it, a union of \<open>true\<close> and
  \<open>false\<close> with the \<open>Boolean\<close> flag.
\<close>

definition booleanTable :: typeTable where
  "booleanTable t =
     (if t = 0 then plainType\<lparr>flagBoolean := True, isUnion := True, memberTypes := [1, 2],
        typeToString := ''boolean''\<rparr>
      else if t = 1 then plainType\<lparr>typeToString := ''true''\<rparr>
      else plainType\<lparr>typeToString := ''false''\<rparr>)"

text \<open>
  \<open>unionTable\<close>: type 0 is the enum \<open>Status\<close> with the members \<open>Ok\<close> and \<open>Error\<close>;
  type 3 is the union \<open>number | Status.Ok\<close>.
\<close>

definition unionTable :: typeTable where
  "unionTable t =
     (if t = 0 then plainType\<lparr>isUnion := True, memberTypes := [1, 2], typeToString := ''Status''\<rparr>
      else if t = 1 then plainType\<lparr>flagEnumLiteral := True, literalValue := StringValue ''Ok'',
        typeToString := ''Status.Ok''\<rparr>
      else if t = 2 then plainType\<lparr>flagEnumLiteral := True, literalValue := StringValue ''Error''\<rparr>
      else if t = 3 then plainType\<lparr>isUnion := True, memberTypes := [4, 1],
        typeToString := ''number | Status.Ok''\<rparr>
      else plainType\<lparr>typeToString := ''number''\<rparr>)"

text \<open>
  \<open>promiseTable\<close>: type 0 is \<open>Promise<Promise<number>>\<close>, type 1 is \<open>Promise<number>\<close>, a
  type reference and so neither a class nor an interface type, type 2 is \<open>number\<close>.
\<close>

definition promiseTable :: typeTable where
  "promiseTable t =
     (if t = 0 then plainType\<lparr>symbolName := Some ''Promise'', typeArguments := Some [1],
        typeToString := ''Promise<Promise<number>>''\<rparr>
      else if t = 1 then plainType\<lparr>symbolName := Some ''Promise'', typeArguments := Some [2],
        typeToString := ''Promise<number>''\<rparr>
      else plainType\<lparr>typeToString := ''number''\<rparr>)"

text \<open>
  \<open>pairTable\<close>: types 1 and 2 are two classes called \<open>Pair\<close> with the members
  \<open>x: number\<close> and \<open>y: number\<close>; type 0 is the object type \<open>{ a: Pair; b: Pair }\<close> that
  uses one for each member. \<open>pairSchema\<close> is the expansion of either class.
\<close>

definition pairTable :: typeTable where
  "pairTable t =
     (if t = 0 then plainType\<lparr>flagAnonymous := True,
        getProperties := [property ''a'' 1, property ''b'' 2], typeToString := ''{ a: Pair; b: Pair; }''\<rparr>
      else if t = 1 \<or> t = 2 then plainType\<lparr>symbolName := Some ''Pair'', isClassOrInterface := True,
        getProperties := [property ''x'' 3, property ''y'' 3], typeToString := ''Pair''\<rparr>
      else plainType\<lparr>typeToString := ''number''\<rparr>)"

definition pairSchema :: schema where
  "pairSchema = ObjectSchema None
     [(''x'', TypeSchema None ''number'' None), (''y'', TypeSchema None ''number'' None)]
     [''x'', ''y''] None"

text \<open>
  \<open>handlerTable\<close>: an object type with two members of type \<open>Function\<close> (type 1).
  The symbol of \<open>resolved\<close> carries its type, that of \<open>declared\<close> does not.
\<close>

definition handlerTable :: typeTable where
  "handlerTable t =
     (if t = 0 then plainType\<lparr>flagAnonymous := True,
        getProperties :=
          [(property ''resolved'' 1)\<lparr>targetType := Some 1\<rparr>, property ''declared'' 1]\<rparr>
      else plainType\<lparr>symbolName := Some ''Function'', isClassOrInterface := True,
        typeToString := ''Function''\<rparr>)"

text \<open>
  \<open>nestedTable\<close>: class \<open>A\<close> (type 0) with the member \<open>inner\<close>, whose type is another
  class \<open>A\<close> (type 1) with the member \<open>x: number\<close>.
\<close>

definition nestedTable :: typeTable where
  "nestedTable t =
     (if t = 0 then plainType\<lparr>symbolName := Some ''A'', isClassOrInterface := True,
        getProperties := [property ''inner'' 1], typeToString := ''A''\<rparr>
      else if t = 1 then plainType\<lparr>symbolName := Some ''A'', isClassOrInterface := True,
        getProperties := [property ''x'' 2], typeToString := ''A''\<rparr>
      else plainType\<lparr>typeToString := ''number''\<rparr>)"

definition outerSchema :: schema where
  "outerSchema = ObjectSchema None [(''inner'', RefSchema None ''#/components/schemas/A'')] [''inner''] None"

definition innerSchema :: schema where
  "innerSchema = ObjectSchema None [(''x'', TypeSchema None ''number'' None)] [''x''] None"

text \<open>
  \<open>nodeTable\<close>: the class \<open>Node { value: number; next?: Node }\<close>, and what a root call on
  it leaves.
\<close>

definition nodeTable :: typeTable where
  "nodeTable t =
     (if t = 0 then plainType\<lparr>symbolName := Some ''Node'', isClassOrInterface := True,
        getProperties := [property ''value'' 1,
          (property ''next'' 0)\<lparr>valueDeclaration := Some ((declaredAs 0)\<lparr>questionToken := True\<rparr>)\<rparr>],
        typeToString := ''Node''\<rparr>
      else plainType\<lparr>typeToString := ''number''\<rparr>)"

definition nodeSchema :: schema where
  "nodeSchema = ObjectSchema None
     [(''value'', TypeSchema None ''number'' None),
      (''next'', RefSchema None ''#/components/schemas/Node'')]
     [''value''] None"

definition nodeRegistry :: "schema config" where
  "nodeRegistry = \<lparr>schemaObjects = [(''Node'', nodeSchema)],
     typeCache = [\<lparr>typeName = ''Node'', schemaName = ''Node'', cachedType = 0,
                   hashCode = Some nodeSchema\<rparr>]\<rparr>"




text \<open>
  \<open>mutualTable\<close>: the classes \<open>A { b: B }\<close> (type 1) and \<open>B { a: A }\<close> (type 2), and the
  object type \<open>{ first: A }\<close> (type 0); every other type is one that no arm takes.
\<close>

definition mutualTable :: typeTable where
  "mutualTable t =
     (if t = 0 then plainType\<lparr>flagAnonymous := True, getProperties := [property ''first'' 1],
        typeToString := ''{ first: A; }''\<rparr>
      else if t = 1 then plainType\<lparr>symbolName := Some ''A'', isClassOrInterface := True,
        getProperties := [property ''b'' 2], typeToString := ''A''\<rparr>
      else if t = 2 then plainType\<lparr>symbolName := Some ''B'', isClassOrInterface := True,
        getProperties := [property ''a'' 1], typeToString := ''B''\<rparr>
      else plainType)"

definition mutualSchemaA :: schema where
  "mutualSchemaA = ObjectSchema None [(''b'', RefSchema None ''#/components/schemas/B'')] [''b''] None"

definition mutualSchemaB :: schema where
  "mutualSchemaB = ObjectSchema None [(''a'', RefSchema None ''#/components/schemas/A'')] [''a''] None"

definition mutualRegistry :: "schema config" where
  "mutualRegistry = \<lparr>schemaObjects = [(''B'', mutualSchemaB), (''A'', mutualSchemaA)],
     typeCache = [\<lparr>typeName = ''A'', schemaName = ''A'', cachedType = 1,
                   hashCode = Some mutualSchemaA\<rparr>,
                  \<lparr>typeName = ''B'', schemaName = ''B'', cachedType = 2,
                   hashCode = Some mutualSchemaB\<rparr>]\<rparr>"

text \<open>
  \<open>partnerRegistry\<close>: what a call on \<open>B\<close> leaves when it is made while \<open>A\<close> is being
  expanded, that is, from the state in which line 122 has pushed the entry of \<open>A\<close>.
\<close>

definition partnerRegistry :: "schema config" where
  "partnerRegistry = \<lparr>schemaObjects = [(''B'', mutualSchemaB)],
     typeCache = [\<lparr>typeName = ''A'', schemaName = ''A'', cachedType = 1, hashCode = None\<rparr>,
                  \<lparr>typeName = ''B'', schemaName = ''B'', cachedType = 2,
                   hashCode = Some mutualSchemaB\<rparr>]\<rparr>"








section \<open>Notions used in the statements\<close>

text \<open>
  \<open>derivedInOrder rec ts s xs s'\<close>: deriving the types \<open>ts\<close> one after the other, starting
  from the shared state \<open>s\<close>, returns the fragments \<open>xs\<close>, in the same order, and leaves \<open>s'\<close>.
\<close>

fun derivedInOrder ::
  "(tid \<Rightarrow> 'h config \<Rightarrow> (schema, 'h) outcome) \<Rightarrow> tid list \<Rightarrow> 'h config \<Rightarrow> schema list
    \<Rightarrow> 'h config \<Rightarrow> bool" where
  "derivedInOrder rec [] s xs s' = (xs = [] \<and> s' = s)"
| "derivedInOrder rec (t # ts) s xs s' =
     (case xs of
        [] \<Rightarrow> False
      | x # xs' \<Rightarrow>
          (case rec t s of
             Some (Inr y, s1) \<Rightarrow> y = x \<and> derivedInOrder rec ts s1 xs' s'
           | _ \<Rightarrow> False))"

text \<open>The values of \<open>$ref\<close> that occur in a schema object.\<close>

fun refsOf :: "schema \<Rightarrow> string list" where
  "refsOf (ArraySchema d x) = refsOf x"
| "refsOf (TypeSchema d t f) = []"
| "refsOf (EnumSchema d vs) = []"
| "refsOf (OneOfSchema d xs) = concat (map refsOf xs)"
| "refsOf (AllOfSchema d xs) = concat (map refsOf xs)"
| "refsOf (ObjectSchema d ps rq ad) =
     concat (map (\<lambda>p. refsOf (snd p)) ps) @ (case ad of None \<Rightarrow> [] | Some a \<Rightarrow> refsOf a)"
| "refsOf (RefSchema d r) = [r]"

definition refsOfAll :: "schema list \<Rightarrow> string set" where
  "refsOfAll xs = (\<Union>x\<in>set xs. set (refsOf x))"

definition refsOfProperties :: "(string \<times> schema) list \<Rightarrow> string set" where
  "refsOfProperties ps = (\<Union>p\<in>set ps. set (refsOf (snd p)))"

definition summary :: "error + schema \<Rightarrow> string set option" where
  "summary r = (case r of Inl e \<Rightarrow> None | Inr x \<Rightarrow> Some (set (refsOf x)))"

text \<open>
  The type objects on which no line of \<open>getSchemaByType\<close> by itself throws: a type called
  \<open>Promise\<close> and an array type have a first type argument (lines 27 and 40), and a class
  or interface type has a symbol (lines 73 and 110).
\<close>

definition wellFormed :: "typeTable \<Rightarrow> bool" where
  "wellFormed tt =
     (\<forall>t. (symbolName (tt t) = Some ''Promise'' \<or> isArrayType (tt t)
             \<longrightarrow> (\<exists>a as. typeArguments (tt t) = Some (a # as)))
        \<and> (isClassOrInterface (tt t) \<longrightarrow> symbolName (tt t) \<noteq> None))"

text \<open>
  A relation \<open>Q s res s'\<close> between the shared state before a call, what the call gives
  (\<open>None\<close> for a throw, \<open>Some X\<close> for a fragment whose references are \<open>X\<close>) and
  the shared state after it. If \<open>Q\<close> holds of doing nothing, composes along calls made
  one after the other, and holds of \<open>addRefTypeSchema\<close> whenever it holds of the calls
  made inside, then it holds of every call of \<open>getSchemaByType\<close>.
\<close>

definition after :: "string set \<Rightarrow> string set option \<Rightarrow> string set option" where
  "after X res = (case res of None \<Rightarrow> None | Some Y \<Rightarrow> Some (X \<union> Y))"

definition traversalRelation ::
  "('h config \<Rightarrow> string set option \<Rightarrow> 'h config \<Rightarrow> bool) \<Rightarrow> bool" where
  "traversalRelation Q =
     ((\<forall>s. Q s (Some {}) s)
      \<and> (\<forall>s X s1 res s2. Q s (Some X) s1 \<longrightarrow> Q s1 res s2 \<longrightarrow> Q s (after X res) s2)
      \<and> (\<forall>s X Y s'. Q s (Some X) s' \<longrightarrow> Y \<subseteq> X \<longrightarrow> Q s (Some Y) s'))"

definition obeys ::
  "('h config \<Rightarrow> string set option \<Rightarrow> 'h config \<Rightarrow> bool)
    \<Rightarrow> (tid \<Rightarrow> 'h config \<Rightarrow> (schema, 'h) outcome) \<Rightarrow> bool" where
  "obeys Q rec = (\<forall>u x r x'. rec u x = Some (r, x') \<longrightarrow> Q x (summary r) x')"

text \<open>
  No dangling reference: the keys of \<open>schemaObjects\<close>, the names held by \<open>typeCache\<close>
  and the references stored in \<open>schemaObjects\<close>. A call that returns has registered
  every name it pushed, so what it returns and what it stored refer to names that were
  in the cache before the call or are keys after it.
\<close>

definition keysOf :: "'h config \<Rightarrow> string set" where
  "keysOf s = set (map fst (schemaObjects s))"

definition cacheNames :: "'h config \<Rightarrow> string set" where
  "cacheNames s = schemaName ` set (typeCache s)"

definition registryRefs :: "'h config \<Rightarrow> string set" where
  "registryRefs s = refsOfProperties (schemaObjects s)"

definition settled :: "'h config \<Rightarrow> string set option \<Rightarrow> 'h config \<Rightarrow> bool" where
  "settled s res s' =
     (case res of
        None \<Rightarrow> True
      | Some X \<Rightarrow>
          keysOf s \<subseteq> keysOf s'
          \<and> cacheNames s' \<subseteq> cacheNames s \<union> keysOf s'
          \<and> X \<subseteq> refPath ` (cacheNames s \<union> keysOf s')
          \<and> registryRefs s' \<subseteq> registryRefs s \<union> refPath ` (cacheNames s \<union> keysOf s'))"

text \<open>
  The states that \<open>addRefTypeSchema\<close> passes through, for a type called \<open>name\<close> met in
  the state \<open>s\<close>: after the push of line 122; after the splice of line 129, from the state
  \<open>s2\<close> in which the expansion ended; after lines 135 and 136, from that state.
\<close>

definition pushEntry :: "'h config \<Rightarrow> string \<Rightarrow> tid \<Rightarrow> 'h config" where
  "pushEntry s name t =
     s\<lparr>typeCache := typeCache s @
       [\<lparr>typeName = name, schemaName = allocateName (schemaObjects s) name, cachedType = t,
         hashCode = None\<rparr>]\<rparr>"

definition dropEntry :: "'h config \<Rightarrow> string \<Rightarrow> 'h config \<Rightarrow> 'h config" where
  "dropEntry s name s2 =
     s2\<lparr>typeCache :=
       splice1 (findIndex (\<lambda>c. schemaName c = allocateName (schemaObjects s) name) (typeCache s2))
         (typeCache s2)\<rparr>"

definition registerEntry :: "'h config \<Rightarrow> string \<Rightarrow> 'h \<Rightarrow> schema \<Rightarrow> 'h config \<Rightarrow> 'h config" where
  "registerEntry s name h schema s2 =
     s2\<lparr>typeCache :=
          (typeCache s2)[length (typeCache s) :=
             (typeCache s2 ! length (typeCache s))\<lparr>hashCode := Some h\<rparr>],
        schemaObjects := assign (schemaObjects s2) (allocateName (schemaObjects s) name) schema\<rparr>"

text \<open>
  The types held by \<open>typeCache\<close>, and the schema names that line 112 to 119 can give to a
  type: its declared name, or that name with a numeric suffix.
\<close>

definition cachedTypes :: "'h config \<Rightarrow> tid set" where
  "cachedTypes s = cachedType ` set (typeCache s)"



text \<open>
  \<open>below rec rec'\<close>: whatever \<open>rec\<close> gives, \<open>rec'\<close> gives too. A call that ends within
  depth \<open>n\<close> ends with the same outcome within any greater depth.
\<close>

definition below ::
  "(tid \<Rightarrow> 'h config \<Rightarrow> (schema, 'h) outcome) \<Rightarrow> (tid \<Rightarrow> 'h config \<Rightarrow> (schema, 'h) outcome)
    \<Rightarrow> bool" where
  "below rec rec' = (\<forall>u s y. rec u s = Some y \<longrightarrow> rec' u s = Some y)"

text \<open>
  A call that returns leaves the entries that \<open>typeCache\<close> had before the call where
  they were and as they were: it only adds entries after them.
\<close>

definition grown :: "'h config \<Rightarrow> string set option \<Rightarrow> 'h config \<Rightarrow> bool" where
  "grown s res s' = (res \<noteq> None \<longrightarrow> (\<exists>new. typeCache s' = typeCache s @ new))"

text \<open>
  For a family \<open>F n\<close> of calls indexed by their depth: \<open>rising\<close>, a greater depth keeps
  every outcome; \<open>keeps F P\<close>, a call that returns from a state in \<open>P\<close> leaves a state
  in \<open>P\<close>; \<open>haltsOn F P S\<close>, from every state in \<open>P\<close> the call on each type of \<open>S\<close>
  ends at some depth.
\<close>

definition rising :: "(nat \<Rightarrow> tid \<Rightarrow> 'h config \<Rightarrow> (schema, 'h) outcome) \<Rightarrow> bool" where
  "rising F = (\<forall>n m. n \<le> m \<longrightarrow> below (F n) (F m))"

definition keeps ::
  "(nat \<Rightarrow> tid \<Rightarrow> 'h config \<Rightarrow> (schema, 'h) outcome) \<Rightarrow> ('h config \<Rightarrow> bool) \<Rightarrow> bool" where
  "keeps F P = (\<forall>n u s x s'. P s \<longrightarrow> F n u s = Some (Inr x, s') \<longrightarrow> P s')"

definition haltsOn ::
  "(nat \<Rightarrow> tid \<Rightarrow> 'h config \<Rightarrow> (schema, 'h) outcome) \<Rightarrow> ('h config \<Rightarrow> bool) \<Rightarrow> tid set
    \<Rightarrow> bool" where
  "haltsOn F P S = (\<forall>u\<in>S. \<forall>s. P s \<longrightarrow> (\<exists>n y. F n u s = Some y))"

text \<open>
  The types that \<open>extendClass\<close> derives: for a member, following lines 182 to 213, and
  for a type, the index type and those of its public members.
\<close>

definition symbolTypes :: "typeTable \<Rightarrow> tsSymbol \<Rightarrow> tid list" where
  "symbolTypes tt symbol =
     (if isFunctionDeclaration symbol then []
      else case targetType symbol of
        Some target \<Rightarrow> [target]
      | None \<Rightarrow>
          (case valueDeclaration symbol of
             Some d \<Rightarrow>
               if symbolName (tt (typeAtLocation d)) = Some ''Function''
                 \<or> symbolIsArrow (tt (typeAtLocation d))
               then [] else [typeAtLocation d]
           | None \<Rightarrow> []))"

definition expandedTypes :: "typeTable \<Rightarrow> tid \<Rightarrow> tid list" where
  "expandedTypes tt t =
     (case (case numberIndexType (tt t) of Some i \<Rightarrow> Some i | None \<Rightarrow> stringIndexType (tt t)) of
        None \<Rightarrow> []
      | Some i \<Rightarrow> [i])
     @ concat (map (symbolTypes tt) (filter isPublic (getProperties (tt t))))"

text \<open>
  The types that a call on \<open>t0\<close> derives without passing through \<open>typeCache\<close>: none for a
  class or interface type, which is either cached or a built-in.
\<close>

definition inlineTypes :: "typeTable \<Rightarrow> tid \<Rightarrow> tid list" where
  "inlineTypes tt t0 =
     (case unwrapPromise tt t0 of
        Inl e \<Rightarrow> []
      | Inr t \<Rightarrow>
          if isArrayType (tt t) then
            (case typeArguments (tt t) of Some (a # as) \<Rightarrow> [a] | _ \<Rightarrow> [])
          else if flagBoolean (tt t) then []
          else if isUnion (tt t) then
            (if list_all (\<lambda>u. flagEnumLiteral (tt u)) (memberTypes (tt t)) then []
             else memberTypes (tt t))
          else if isIntersection (tt t) then memberTypes (tt t)
          else if isClassOrInterface (tt t) then []
          else if flagAnonymous (tt t) then expandedTypes tt t
          else [])"

text \<open>A call that reaches the arm of line 72.\<close>

definition classArm :: "typeTable \<Rightarrow> tid \<Rightarrow> bool" where
  "classArm tt t =
     (\<not> isArrayType (tt t) \<and> \<not> flagBoolean (tt t) \<and> \<not> isUnion (tt t) \<and> \<not> isIntersection (tt t)
      \<and> isClassOrInterface (tt t))"

text \<open>
  \<open>classTarget tt p\<close>: the type that a call on \<open>p\<close> in reference mode hands to
  \<open>addRefTypeSchema\<close>, when it does: \<open>p\<close> itself, or the first type argument of the
  \<open>Promise\<close> that \<open>p\<close> is, reaches the arm of line 72 and is called neither \<open>Date\<close> nor
  \<open>Object\<close>. \<open>cachedName tt s p\<close>: the schema name that the \<open>find\<close> of line 103 reads for
  that type in the state \<open>s\<close>. \<open>distinctMembers\<close>: the public members of a type have
  different names, as the properties of a type given by the compiler do.
\<close>

definition classTarget :: "typeTable \<Rightarrow> tid \<Rightarrow> tid option" where
  "classTarget tt p =
     (case unwrapPromise tt p of
        Inl e \<Rightarrow> None
      | Inr t \<Rightarrow>
          if classArm tt t \<and> symbolName (tt t) \<noteq> None \<and> symbolName (tt t) \<noteq> Some ''Date''
             \<and> symbolName (tt t) \<noteq> Some ''Object''
          then Some t else None)"

definition cachedName :: "typeTable \<Rightarrow> 'h config \<Rightarrow> tid \<Rightarrow> string option" where
  "cachedName tt s p =
     (case classTarget tt p of
        None \<Rightarrow> None
      | Some t \<Rightarrow> map_option schemaName (find (\<lambda>c. cachedType c = t) (typeCache s)))"

definition distinctMembers :: "typeTable \<Rightarrow> bool" where
  "distinctMembers tt =
     (\<forall>p. distinct (map escapedName (filter isPublic (getProperties (tt p)))))"








text \<open>
  The members that \<open>extendClass\<close> passes to \<open>setProp\<close>: public, not declared as a
  method or an arrow function, and either carrying a type on the symbol, or having no
  declaration, or declared with a type that is neither \<open>Function\<close> nor an arrow function.
\<close>

definition isKept :: "typeTable \<Rightarrow> tsSymbol \<Rightarrow> bool" where
  "isKept tt symbol =
     (isPublic symbol \<and> \<not> isFunctionDeclaration symbol
      \<and> (case targetType symbol of
            Some target \<Rightarrow> True
          | None \<Rightarrow>
              (case valueDeclaration symbol of
                 None \<Rightarrow> True
               | Some d \<Rightarrow> symbolName (tt (typeAtLocation d)) \<noteq> Some ''Function''
                   \<and> \<not> symbolIsArrow (tt (typeAtLocation d)))))"

section \<open>Evaluating the traversal on a table\<close>

text \<open>The equations that compute a call on one of the example tables.\<close>

lemmas run_defs = getSchemaByType.simps eval_nat_numeral unwrapPromise_def
    defaultDescription_def extendClass_def addRefTypeSchema_def
    andThen_def ok_def throw_def forEachBody_def isPublic_def isFunctionDeclaration_def setProp_def
    allocateName_def hasKey_def probe.simps suffixed_def digits.simps digitChar_def refPath_def
    splice1_def Let_def plainType_def property_def declaredAs_def emptyConfig_def

section \<open>Sequences of derivations\<close>

text \<open>
  The loop over the member types returns exactly when every derivation in it returns.
\<close>

lemma mapSchemas_derivedInOrder:
  "(mapSchemas rec ts s = Some (Inr xs, s')) = derivedInOrder rec ts s xs s'"
proof (induction ts arbitrary: s xs)
  case Nil
  show ?case by (auto simp: ok_def)
next
  case (Cons t ts)
  show ?case
  proof (cases "rec t s")
    case None
    then show ?thesis by (simp add: andThen_def split: list.splits)
  next
    case (Some p)
    obtain r s1 where p: "p = (r, s1)" by (cases p)
    show ?thesis
    proof (cases r)
      case (Inl e)
      with Some p show ?thesis by (simp add: andThen_def split: list.splits)
    next
      case (Inr y)
      show ?thesis
      proof (cases "mapSchemas rec ts s1")
        case None
        with Some p Inr Cons.IH [of s1] show ?thesis
          by (cases xs) (auto simp: andThen_def ok_def)
      next
        case ms: (Some q)
        obtain r2 s2 where q: "q = (r2, s2)" by (cases q)
        show ?thesis
        proof (cases r2)
          case (Inl e)
          with Some p Inr ms q Cons.IH [of s1] show ?thesis
            by (cases xs) (auto simp: andThen_def ok_def)
        next
          case r2: (Inr ys)
          with Some p Inr ms q Cons.IH [of s1] show ?thesis
            by (cases xs) (auto simp: andThen_def ok_def)
        qed
      qed
    qed
  qed
qed

section \<open>Dispatch\<close>

text \<open>
  C7. A boolean-kinded type (one that reaches the dispatch with the \<open>Boolean\<close> flag: no
  \<open>Promise\<close> symbol to unwrap and not an array) yields \<open>{type: 'boolean'}\<close> with the
  type's comment, whatever \<open>isUnion\<close> and the member types say, and never an enum.
\<close>

theorem boolean_type_schema:
  assumes "symbolName (tt t) \<noteq> Some ''Promise''"
    and "\<not> isArrayType (tt t)"
    and "flagBoolean (tt t)"
  shows "getSchemaByType (Suc n) hash tt ext t s
      = Some (Inr (TypeSchema (defaultDescription (tt t)) ''boolean'' None), s)
    \<and> getSchemaByType (Suc n) hash tt ext t s \<noteq> Some (Inr (EnumSchema d vs), s')"
  using assms by (simp add: getSchemaByType.simps unwrapPromise_def ok_def)

theorem boolean_type_schema_witness:
  "symbolName (booleanTable 0) \<noteq> Some ''Promise'' \<and> \<not> isArrayType (booleanTable 0)
    \<and> flagBoolean (booleanTable 0) \<and> isUnion (booleanTable 0)
    \<and> getSchemaByType 1 structuralHash booleanTable False 0 emptyConfig
      = Some (Inr (TypeSchema None ''boolean'' None), emptyConfig)"
  using boolean_type_schema [of booleanTable 0 0 structuralHash False emptyConfig]
  by (simp add: booleanTable_def plainType_def defaultDescription_def)

text \<open>
  C6. A union type (one that reaches the union arm: no \<open>Promise\<close> symbol, not an array,
  not boolean) whose members all carry the \<open>EnumLiteral\<close> flag yields
  \<open>{type: 'string', enum}\<close> with the members' values in declared order. Any other union
  returns exactly the fragments \<open>{type: 'object', oneOf}\<close> whose members are the fragments
  derived from the member types in declared order.
\<close>

theorem union_type_schema:
  assumes "symbolName (tt t) \<noteq> Some ''Promise''"
    and "\<not> isArrayType (tt t)"
    and "\<not> flagBoolean (tt t)"
    and "isUnion (tt t)"
  shows "(list_all (\<lambda>u. flagEnumLiteral (tt u)) (memberTypes (tt t)) \<longrightarrow>
        getSchemaByType (Suc n) hash tt ext t s
          = Some (Inr (EnumSchema (defaultDescription (tt t))
              (map (\<lambda>u. literalValue (tt u)) (memberTypes (tt t)))), s))
    \<and> (\<not> list_all (\<lambda>u. flagEnumLiteral (tt u)) (memberTypes (tt t)) \<longrightarrow>
        (getSchemaByType (Suc n) hash tt ext t s = Some (Inr r, s'))
          = (\<exists>xs. r = OneOfSchema (defaultDescription (tt t)) xs
              \<and> derivedInOrder (getSchemaByType n hash tt ext) (memberTypes (tt t)) s xs s'))"
proof (intro conjI impI)
  assume "list_all (\<lambda>u. flagEnumLiteral (tt u)) (memberTypes (tt t))"
  with assms show "getSchemaByType (Suc n) hash tt ext t s
      = Some (Inr (EnumSchema (defaultDescription (tt t))
          (map (\<lambda>u. literalValue (tt u)) (memberTypes (tt t)))), s)"
    by (simp add: getSchemaByType.simps unwrapPromise_def ok_def)
next
  assume "\<not> list_all (\<lambda>u. flagEnumLiteral (tt u)) (memberTypes (tt t))"
  with assms have e: "getSchemaByType (Suc n) hash tt ext t s
      = andThen (mapSchemas (getSchemaByType n hash tt ext) (memberTypes (tt t)) s)
          (\<lambda>xs. ok (OneOfSchema (defaultDescription (tt t)) xs))"
    by (simp add: getSchemaByType.simps unwrapPromise_def)
  show "(getSchemaByType (Suc n) hash tt ext t s = Some (Inr r, s'))
      = (\<exists>xs. r = OneOfSchema (defaultDescription (tt t)) xs
          \<and> derivedInOrder (getSchemaByType n hash tt ext) (memberTypes (tt t)) s xs s')"
    unfolding e mapSchemas_derivedInOrder [symmetric]
    by (auto simp: andThen_def ok_def split: option.splits sum.splits)
qed

theorem union_type_schema_witness:
  "getSchemaByType 1 structuralHash unionTable False 0 emptyConfig
      = Some (Inr (EnumSchema None [StringValue ''Ok'', StringValue ''Error'']), emptyConfig)
    \<and> getSchemaByType 2 structuralHash unionTable False 3 emptyConfig
      = Some (Inr (OneOfSchema None [TypeSchema None ''number'' None, TypeSchema None ''Status.Ok'' None]),
          emptyConfig)"
proof
  show "getSchemaByType 1 structuralHash unionTable False 0 emptyConfig
      = Some (Inr (EnumSchema None [StringValue ''Ok'', StringValue ''Error'']), emptyConfig)"
    using union_type_schema [of unionTable 0 0 structuralHash False emptyConfig]
    by (simp add: unionTable_def plainType_def defaultDescription_def)
next
  have "derivedInOrder (getSchemaByType 1 structuralHash unionTable False) [4, 1] emptyConfig
      [TypeSchema None ''number'' None, TypeSchema None ''Status.Ok'' None] emptyConfig"
    by (simp add: run_defs unionTable_def)
  then show "getSchemaByType 2 structuralHash unionTable False 3 emptyConfig
      = Some (Inr (OneOfSchema None [TypeSchema None ''number'' None, TypeSchema None ''Status.Ok'' None]),
          emptyConfig)"
    using union_type_schema [of unionTable 3 1 structuralHash False emptyConfig
      "OneOfSchema None [TypeSchema None ''number'' None, TypeSchema None ''Status.Ok'' None]" emptyConfig]
    by (simp add: unionTable_def plainType_def defaultDescription_def eval_nat_numeral)
qed

text \<open>
  C5, as stated, fails for nested wrappers: lines 26 to 28 are an \<open>if\<close>, not a loop, so
  \<open>Promise<Promise<number>>\<close> is dispatched as \<open>Promise<number>\<close>, which falls to the
  last arm, while \<open>Promise<number>\<close> itself is dispatched as \<open>number\<close>.
\<close>

theorem nested_promise_counterexample:
  "getSchemaByType 1 structuralHash promiseTable False 0 emptyConfig
      = Some (Inr (TypeSchema None ''Promise<number>'' None), emptyConfig)
    \<and> getSchemaByType 1 structuralHash promiseTable False 1 emptyConfig
      = Some (Inr (TypeSchema None ''number'' None), emptyConfig)
    \<and> getSchemaByType 1 structuralHash promiseTable False 0 emptyConfig
      \<noteq> getSchemaByType 1 structuralHash promiseTable False 1 emptyConfig"
  by (simp add: run_defs promiseTable_def)

text \<open>
  C5, amended. For a type \<open>w\<close> whose symbol is called \<open>Promise\<close> and whose first type
  argument \<open>a\<close> is not itself called \<open>Promise\<close>, the call on \<open>w\<close> is the call on \<open>a\<close>:
  the same fragment and the same \<open>schemaObjects\<close> and \<open>typeCache\<close>, so nothing is made for
  the wrapper.
\<close>

theorem promise_unwrapped_once:
  assumes "symbolName (tt w) = Some ''Promise''"
    and "typeArguments (tt w) = Some (a # as)"
    and "symbolName (tt a) \<noteq> Some ''Promise''"
  shows "getSchemaByType n hash tt ext w s = getSchemaByType n hash tt ext a s"
  using assms by (cases n) (simp_all add: getSchemaByType.simps unwrapPromise_def)

theorem promise_unwrapped_once_witness:
  "symbolName (promiseTable 1) = Some ''Promise'' \<and> typeArguments (promiseTable 1) = Some [2]
    \<and> symbolName (promiseTable 2) \<noteq> Some ''Promise''
    \<and> getSchemaByType 1 structuralHash promiseTable False 1 emptyConfig
      = getSchemaByType 1 structuralHash promiseTable False 2 emptyConfig"
  using promise_unwrapped_once [of promiseTable 1 2 "[]" 1 structuralHash False emptyConfig]
  by (simp add: promiseTable_def plainType_def)

section \<open>Structural deduplication\<close>

text \<open>
  C1. The code does not do what the claim says. Two types named \<open>Pair\<close> with the same
  two members, used by the members \<open>a\<close> and \<open>b\<close> of an object type: the first is
  registered as \<open>Pair\<close>; for the second, line 127 finds the first entry, line 129 removes
  the second, and line 133 throws, whatever the hash function is.
\<close>

theorem same_shape_pair_throws:
  "getSchemaByType 4 hash pairTable False 0 emptyConfig
     = Some (Inl TypeError,
         \<lparr>schemaObjects = [(''Pair'', pairSchema)],
          typeCache = [\<lparr>typeName = ''Pair'', schemaName = ''Pair'', cachedType = 1,
                        hashCode = Some (hash pairSchema)\<rparr>]\<rparr>)"
  by (simp add: run_defs pairTable_def pairSchema_def)

section \<open>Member expansion\<close>

text \<open>
  C8. The code does not do what the claim says. The members \<open>resolved\<close> and \<open>declared\<close>
  both have the type \<open>Function\<close>. \<open>declared\<close> is dropped by line 198. \<open>resolved\<close> carries
  its type on the symbol (\<open>symbol.type\<close>), so line 194 derives it without the checks of
  lines 198 to 206: it is a property, it is required, and \<open>Function\<close> is registered.
\<close>

theorem function_member_kept:
  "getSchemaByType 4 hash handlerTable False 0 emptyConfig
     = Some (Inr (ObjectSchema None
           [(''resolved'', RefSchema None ''#/components/schemas/Function'')] [''resolved''] None),
         \<lparr>schemaObjects = [(''Function'', ObjectSchema None [] [] None)],
          typeCache = [\<lparr>typeName = ''Function'', schemaName = ''Function'', cachedType = 1,
                        hashCode = Some (hash (ObjectSchema None [] [] None))\<rparr>]\<rparr>)"
  by (simp add: run_defs handlerTable_def)

section \<open>Name allocation\<close>

text \<open>
  The search of lines 112 to 119 by itself: when the declared name is a key, the result
  is the name suffixed with the least \<open>i \<ge> 1\<close> whose suffixed name is not a key.
\<close>

lemma probe_least:
  "\<not> hasKey obj (suffixed name (probe obj name i)) \<and> i \<le> probe obj name i
    \<and> (\<forall>j. i \<le> j \<and> j < probe obj name i \<longrightarrow> hasKey obj (suffixed name j))"
proof (induction obj name i rule: probe.induct)
  case (1 obj name i)
  show ?case
  proof (cases "hasKey obj (suffixed name i)")
    case True
    then have e: "probe obj name i = probe obj name (Suc i)" by (subst probe.simps) simp
    from "1.IH" [OF True] have
      a: "\<not> hasKey obj (suffixed name (probe obj name (Suc i)))" and
      b: "Suc i \<le> probe obj name (Suc i)" and
      c: "\<forall>j. Suc i \<le> j \<and> j < probe obj name (Suc i) \<longrightarrow> hasKey obj (suffixed name j)"
      by simp_all
    have "\<forall>j. i \<le> j \<and> j < probe obj name (Suc i) \<longrightarrow> hasKey obj (suffixed name j)"
    proof (intro allI impI)
      fix j assume j: "i \<le> j \<and> j < probe obj name (Suc i)"
      show "hasKey obj (suffixed name j)"
      proof (cases "j = i")
        case True
        with \<open>hasKey obj (suffixed name i)\<close> show ?thesis by simp
      next
        case False
        with j have "Suc i \<le> j \<and> j < probe obj name (Suc i)" by simp
        with c show ?thesis by blast
      qed
    qed
    with a b show ?thesis unfolding e by simp
  next
    case False
    then have "probe obj name i = i" by (subst probe.simps) simp
    with False show ?thesis by auto
  qed
qed

lemma allocateName_least:
  assumes "hasKey obj name"
  shows "\<exists>i\<ge>1. allocateName obj name = suffixed name i \<and> \<not> hasKey obj (suffixed name i)
    \<and> (\<forall>j. 1 \<le> j \<and> j < i \<longrightarrow> hasKey obj (suffixed name j))"
  using assms probe_least [of obj name 1] unfolding allocateName_def by auto

text \<open>
  C9. The code does not do what the claim says. The class \<open>A\<close> has a member whose type is
  another class \<open>A\<close>. The inner class is met while the outer one is being expanded, when
  \<open>A\<close> is in \<open>typeCache\<close> but not yet a key of \<open>schemaObjects\<close>, which is all that line 113
  looks at: both get the name \<open>A\<close>, and line 136 for the outer class overwrites the inner
  one's entry. One entry is left, and the member \<open>inner\<close> refers to its own class.
\<close>

theorem nested_same_name_collides:
  "getSchemaByType 5 structuralHash nestedTable False 0 emptyConfig
     = Some (Inr (RefSchema None ''#/components/schemas/A''),
         \<lparr>schemaObjects = [(''A'', outerSchema)],
          typeCache = [\<lparr>typeName = ''A'', schemaName = ''A'', cachedType = 0,
                        hashCode = Some outerSchema\<rparr>,
                       \<lparr>typeName = ''A'', schemaName = ''A'', cachedType = 1,
                        hashCode = Some innerSchema\<rparr>]\<rparr>)"
  by (simp add: run_defs nestedTable_def outerSchema_def innerSchema_def structuralHash_def)

section \<open>Invariants of the traversal\<close>

text \<open>
  How calls compose, which references the built fragments hold, and the rule that carries
  a relation from the calls made inside \<open>addRefTypeSchema\<close> to every call of
  \<open>getSchemaByType\<close>.
\<close>

lemma andThen_SomeE:
  assumes "andThen m k = Some (r, s')"
  obtains (throws) e where "m = Some (Inl e, s')" and "r = Inl e"
  | (returns) x s1 where "m = Some (Inr x, s1)" and "k x s1 = Some (r, s')"
  using assms by (auto simp: andThen_def split: option.splits sum.splits prod.splits)

lemma refsOf_withDescription [simp]: "refsOf (withDescription c v) = refsOf v"
  by (cases v) simp_all

lemma refsOfProperties_assign:
  "refsOfProperties (assign ps k v) \<subseteq> refsOfProperties ps \<union> set (refsOf v)"
  by (induction ps) (auto simp: refsOfProperties_def)

lemma traversalRelation_ret: "traversalRelation Q \<Longrightarrow> Q s (Some {}) s"
  by (simp add: traversalRelation_def)

lemma traversalRelation_seq:
  "traversalRelation Q \<Longrightarrow> Q s (Some X) s1 \<Longrightarrow> Q s1 res s2 \<Longrightarrow> Q s (after X res) s2"
  unfolding traversalRelation_def by blast

lemma traversalRelation_seq_None:
  "traversalRelation Q \<Longrightarrow> Q s (Some X) s1 \<Longrightarrow> Q s1 None s2 \<Longrightarrow> Q s None s2"
  using traversalRelation_seq [of Q s X s1 None s2] by (simp add: after_def)

lemma traversalRelation_seq_Some:
  "traversalRelation Q \<Longrightarrow> Q s (Some X) s1 \<Longrightarrow> Q s1 (Some Y) s2 \<Longrightarrow> Z \<subseteq> X \<union> Y
    \<Longrightarrow> Q s (Some Z) s2"
proof -
  assume tr: "traversalRelation Q" and a: "Q s (Some X) s1" and b: "Q s1 (Some Y) s2"
    and z: "Z \<subseteq> X \<union> Y"
  from traversalRelation_seq [OF tr a b] have "Q s (Some (X \<union> Y)) s2" by (simp add: after_def)
  with tr z show "Q s (Some Z) s2" unfolding traversalRelation_def by blast
qed

lemma obeysD_Inr: "obeys Q rec \<Longrightarrow> rec u x = Some (Inr v, x') \<Longrightarrow> Q x (Some (set (refsOf v))) x'"
  unfolding obeys_def summary_def by fastforce

lemma obeysD_Inl: "obeys Q rec \<Longrightarrow> rec u x = Some (Inl e, x') \<Longrightarrow> Q x None x'"
  unfolding obeys_def summary_def by fastforce

lemma mapSchemas_relation:
  assumes tr: "traversalRelation Q" and rec: "obeys Q rec"
  shows "mapSchemas rec ts s = Some (r, s')
    \<Longrightarrow> Q s (case r of Inl e \<Rightarrow> None | Inr xs \<Rightarrow> Some (refsOfAll xs)) s'"
proof (induction ts arbitrary: s r s')
  case Nil
  then show ?case using traversalRelation_ret [OF tr] by (auto simp: ok_def refsOfAll_def)
next
  case (Cons t ts)
  from Cons.prems have "andThen (rec t s)
      (\<lambda>x s1. andThen (mapSchemas rec ts s1) (\<lambda>xs. ok (x # xs))) = Some (r, s')" by simp
  then show ?case
  proof (cases rule: andThen_SomeE)
    case (throws e)
    with obeysD_Inl [OF rec] show ?thesis by simp
  next
    case (returns x s1)
    from obeysD_Inr [OF rec returns(1)] have q1: "Q s (Some (set (refsOf x))) s1" .
    from returns(2) show ?thesis
    proof (cases rule: andThen_SomeE)
      case (throws e)
      from Cons.IH [OF throws(1)] have "Q s1 None s'" by simp
      with traversalRelation_seq_None [OF tr q1] throws(2) show ?thesis by simp
    next
      case inner: (returns xs s2)
      from Cons.IH [OF inner(1)] have "Q s1 (Some (refsOfAll xs)) s2" by simp
      from traversalRelation_seq_Some [OF tr q1 this, of "refsOfAll (x # xs)"]
      have "Q s (Some (refsOfAll (x # xs))) s2" by (simp add: refsOfAll_def)
      with inner(2) show ?thesis by (auto simp: ok_def)
    qed
  qed
qed

lemma refsOfProperties_setProp:
  "refsOfProperties (fst (setProp symbol v acc)) \<subseteq> refsOfProperties (fst acc) \<union> set (refsOf v)"
  using refsOfProperties_assign [of "fst acc" "escapedName symbol" "withDescription (symbolComment symbol) v"]
  by (simp add: setProp_def Let_def)

lemma forEachBody_relation:
  assumes tr: "traversalRelation Q" and rec: "obeys Q rec"
    and run: "forEachBody rec tt symbol acc s = Some (r, s')"
  shows "case r of
      Inl e \<Rightarrow> Q s None s'
    | Inr acc' \<Rightarrow> \<exists>X. Q s (Some X) s'
        \<and> refsOfProperties (fst acc') \<subseteq> refsOfProperties (fst acc) \<union> X"
proof -
  have skip: "ok acc s = Some (r, s') \<Longrightarrow> ?thesis"
    using traversalRelation_ret [OF tr, of s] by (auto simp: ok_def)
  have derive: "andThen (rec u s) (\<lambda>v. ok (setProp symbol v acc)) = Some (r, s') \<Longrightarrow> ?thesis" for u
  proof -
    assume "andThen (rec u s) (\<lambda>v. ok (setProp symbol v acc)) = Some (r, s')"
    then show ?thesis
    proof (cases rule: andThen_SomeE)
      case (throws e)
      with obeysD_Inl [OF rec] show ?thesis by simp
    next
      case (returns v s1)
      from returns(2) have r: "r = Inr (setProp symbol v acc)" and s: "s' = s1"
        by (simp_all add: ok_def)
      from obeysD_Inr [OF rec returns(1)] have "Q s (Some (set (refsOf v))) s1" .
      with refsOfProperties_setProp [of symbol v acc] show ?thesis unfolding r s by auto
    qed
  qed
  have any: "ok (setProp symbol (TypeSchema None ''any'' None) acc) s = Some (r, s') \<Longrightarrow> ?thesis"
  proof -
    assume "ok (setProp symbol (TypeSchema None ''any'' None) acc) s = Some (r, s')"
    then have r: "r = Inr (setProp symbol (TypeSchema None ''any'' None) acc)" and s: "s' = s"
      by (simp_all add: ok_def)
    have "refsOfProperties (fst (setProp symbol (TypeSchema None ''any'' None) acc))
        \<subseteq> refsOfProperties (fst acc) \<union> {}"
      using refsOfProperties_setProp [of symbol "TypeSchema None ''any'' None" acc] by simp
    with traversalRelation_ret [OF tr, of s] show ?thesis unfolding r s by auto
  qed
  from run show ?thesis
    unfolding forEachBody_def Let_def
    by (auto split: if_splits option.splits intro: skip derive any)
qed

lemma forEachSymbol_relation:
  assumes tr: "traversalRelation Q" and rec: "obeys Q rec"
  shows "forEachSymbol rec tt symbols acc s = Some (r, s')
    \<Longrightarrow> (case r of
          Inl e \<Rightarrow> Q s None s'
        | Inr acc' \<Rightarrow> \<exists>X. Q s (Some X) s'
            \<and> refsOfProperties (fst acc') \<subseteq> refsOfProperties (fst acc) \<union> X)"
proof (induction symbols arbitrary: acc s r s')
  case Nil
  then have "r = Inr acc" and "s' = s" by (simp_all add: ok_def)
  with traversalRelation_ret [OF tr, of s] show ?case by auto
next
  case (Cons symbol symbols)
  from Cons.prems have
    "andThen (forEachBody rec tt symbol acc s) (forEachSymbol rec tt symbols) = Some (r, s')"
    by simp
  then show ?case
  proof (cases rule: andThen_SomeE)
    case (throws e)
    with forEachBody_relation [OF tr rec throws(1)] show ?thesis by simp
  next
    case (returns acc1 s1)
    from forEachBody_relation [OF tr rec returns(1)] obtain X where
      q1: "Q s (Some X) s1" and
      x: "refsOfProperties (fst acc1) \<subseteq> refsOfProperties (fst acc) \<union> X" by auto
    show ?thesis
    proof (cases r)
      case (Inl e)
      with Cons.IH [OF returns(2)] have "Q s1 None s'" by simp
      with traversalRelation_seq_None [OF tr q1] Inl show ?thesis by simp
    next
      case (Inr acc')
      with Cons.IH [OF returns(2)] obtain Y where
        q2: "Q s1 (Some Y) s'" and
        y: "refsOfProperties (fst acc') \<subseteq> refsOfProperties (fst acc1) \<union> Y" by auto
      from traversalRelation_seq_Some [OF tr q1 q2, of "X \<union> Y"]
      have "Q s (Some (X \<union> Y)) s'" by simp
      moreover from x y
      have "refsOfProperties (fst acc') \<subseteq> refsOfProperties (fst acc) \<union> (X \<union> Y)" by blast
      ultimately show ?thesis using Inr by auto
    qed
  qed
qed

lemma extendClass_relation:
  assumes tr: "traversalRelation Q" and rec: "obeys Q rec"
    and run: "extendClass rec tt t d s = Some (r, s')"
  shows "Q s (summary r) s'"
proof -
  define index where "index = (case numberIndexType (tt t) of
      Some i \<Rightarrow> Some i | None \<Rightarrow> stringIndexType (tt t))"
  define first :: "(schema option, 'a) outcome" where "first = (case index of
      None \<Rightarrow> ok None s | Some i \<Rightarrow> andThen (rec i s) (\<lambda>a. ok (Some a)))"
  from run have run': "andThen first (\<lambda>additionalProperties s1.
      andThen (forEachSymbol rec tt (filter isPublic (getProperties (tt t))) ([], []) s1)
        (\<lambda>acc. ok (ObjectSchema d (fst acc) (snd acc) additionalProperties))) = Some (r, s')"
    unfolding extendClass_def Let_def first_def index_def .
  have first: "first = Some (r1, s1) \<Longrightarrow> Q s (case r1 of Inl e \<Rightarrow> None
      | Inr ad \<Rightarrow> Some (case ad of None \<Rightarrow> {} | Some a \<Rightarrow> set (refsOf a))) s1" for r1 s1
  proof (cases index)
    case None
    assume "first = Some (r1, s1)"
    with None have "r1 = Inr None" and "s1 = s" by (simp_all add: first_def ok_def)
    with traversalRelation_ret [OF tr, of s] show ?thesis by simp
  next
    case (Some i)
    assume "first = Some (r1, s1)"
    with Some have "andThen (rec i s) (\<lambda>a. ok (Some a)) = Some (r1, s1)"
      by (simp add: first_def)
    then show ?thesis
    proof (cases rule: andThen_SomeE)
      case (throws e)
      with obeysD_Inl [OF rec] show ?thesis by simp
    next
      case (returns a s2)
      from returns(2) have "r1 = Inr (Some a)" and "s1 = s2" by (simp_all add: ok_def)
      with obeysD_Inr [OF rec returns(1)] show ?thesis by simp
    qed
  qed
  from run' show ?thesis
  proof (cases rule: andThen_SomeE)
    case (throws e)
    with first [of "Inl e" s'] show ?thesis by (simp add: summary_def)
  next
    case (returns ad s1)
    from first [OF returns(1)]
    have q1: "Q s (Some (case ad of None \<Rightarrow> {} | Some a \<Rightarrow> set (refsOf a))) s1" by simp
    from returns(2) show ?thesis
    proof (cases rule: andThen_SomeE)
      case (throws e)
      from forEachSymbol_relation [OF tr rec throws(1)] have "Q s1 None s'" by simp
      with traversalRelation_seq_None [OF tr q1] throws(2) show ?thesis
        by (simp add: summary_def)
    next
      case members: (returns acc s2)
      from members(2) have r: "r = Inr (ObjectSchema d (fst acc) (snd acc) ad)" and s: "s' = s2"
        by (simp_all add: ok_def)
      from forEachSymbol_relation [OF tr rec members(1)] obtain X where
        q2: "Q s1 (Some X) s2" and x: "refsOfProperties (fst acc) \<subseteq> X"
        by (auto simp: refsOfProperties_def)
      have "set (refsOf (ObjectSchema d (fst acc) (snd acc) ad))
          \<subseteq> (case ad of None \<Rightarrow> {} | Some a \<Rightarrow> set (refsOf a)) \<union> X"
        using x by (auto simp: refsOfProperties_def split: option.splits)
      from traversalRelation_seq_Some [OF tr q1 q2 this] show ?thesis
        unfolding r s by (simp add: summary_def)
    qed
  qed
qed

lemma getSchemaByType_relation:
  assumes tr: "traversalRelation Q"
    and err: "\<And>s. \<not> wellFormed tt \<Longrightarrow> Q s None s"
    and addRef: "\<And>m t s r s'. obeys Q (getSchemaByType m hash tt True)
      \<Longrightarrow> isClassOrInterface (tt t)
      \<Longrightarrow> addRefTypeSchema hash (getSchemaByType m hash tt True) tt t s = Some (r, s')
      \<Longrightarrow> Q s (summary r) s'"
  shows "obeys Q (getSchemaByType n hash tt ext)"
proof (induction n arbitrary: ext)
  case 0
  show ?case by (simp add: obeys_def getSchemaByType.simps)
next
  case (Suc n)
  show ?case unfolding obeys_def
  proof (intro allI impI)
    fix t0 s r s'
    assume run: "getSchemaByType (Suc n) hash tt ext t0 s = Some (r, s')"
    have thrown: "throw e s = Some (r, s') \<Longrightarrow> \<not> wellFormed tt \<Longrightarrow> Q s (summary r) s'" for e
      using err [of s] by (auto simp: throw_def summary_def)
    show "Q s (summary r) s'"
    proof (cases "unwrapPromise tt t0")
      case (Inl e)
      then have "\<not> wellFormed tt"
        by (auto simp: unwrapPromise_def wellFormed_def split: if_splits option.splits list.splits)
      moreover from run Inl have "throw e s = Some (r, s')" by (simp add: getSchemaByType.simps)
      ultimately show ?thesis by (rule thrown [rotated])
    next
      case (Inr t)
      note run' = run [unfolded getSchemaByType.simps Inr sum.case Let_def]
      have ret: "ok x s = Some (r, s') \<Longrightarrow> refsOf x = [] \<Longrightarrow> ?thesis" for x
        using traversalRelation_ret [OF tr, of s] by (auto simp: ok_def summary_def)
      have members: "andThen (mapSchemas (getSchemaByType n hash tt ext) ts s) (\<lambda>xs. ok (f xs))
          = Some (r, s') \<Longrightarrow> (\<And>xs. set (refsOf (f xs)) = refsOfAll xs) \<Longrightarrow> ?thesis" for ts f
      proof -
        assume a: "andThen (mapSchemas (getSchemaByType n hash tt ext) ts s) (\<lambda>xs. ok (f xs))
          = Some (r, s')" and f: "\<And>xs. set (refsOf (f xs)) = refsOfAll xs"
        from a show ?thesis
        proof (cases rule: andThen_SomeE)
          case (throws e)
          with mapSchemas_relation [OF tr Suc.IH throws(1)] show ?thesis
            by (simp add: summary_def)
        next
          case (returns xs s1)
          from returns(2) have "r = Inr (f xs)" and "s' = s1" by (simp_all add: ok_def)
          with mapSchemas_relation [OF tr Suc.IH returns(1)] f show ?thesis
            by (simp add: summary_def)
        qed
      qed
      show ?thesis
      proof (cases "isArrayType (tt t)")
        case True
        show ?thesis
        proof (cases "typeArguments (tt t)")
          case None
          with True have "\<not> wellFormed tt" by (auto simp: wellFormed_def)
          moreover from run' True None have "throw TypeError s = Some (r, s')" by simp
          ultimately show ?thesis by (rule thrown [rotated])
        next
          case (Some as)
          show ?thesis
          proof (cases as)
            case Nil
            with True Some have "\<not> wellFormed tt" by (auto simp: wellFormed_def)
            moreover from run' True Some Nil have "throw TypeError s = Some (r, s')" by simp
            ultimately show ?thesis by (rule thrown [rotated])
          next
            case (Cons a as')
            with run' True Some have "andThen (getSchemaByType n hash tt ext a s)
                (\<lambda>items. ok (ArraySchema (defaultDescription (tt t)) items)) = Some (r, s')"
              by simp
            then show ?thesis
            proof (cases rule: andThen_SomeE)
              case (throws e)
              with obeysD_Inl [OF Suc.IH] show ?thesis by (simp add: summary_def)
            next
              case (returns x s1)
              from returns(2) have "r = Inr (ArraySchema (defaultDescription (tt t)) x)"
                and "s' = s1" by (simp_all add: ok_def)
              with obeysD_Inr [OF Suc.IH returns(1)] show ?thesis by (simp add: summary_def)
            qed
          qed
        qed
      next
        case notArray: False
        show ?thesis
        proof (cases "flagBoolean (tt t)")
          case True
          with run' notArray show ?thesis by (auto intro: ret)
        next
          case notBoolean: False
          show ?thesis
          proof (cases "isUnion (tt t)")
            case True
            with run' notArray notBoolean show ?thesis
              by (auto split: if_splits intro: ret members simp: refsOfAll_def)
          next
            case notUnion: False
            show ?thesis
            proof (cases "isIntersection (tt t)")
              case True
              with run' notArray notBoolean notUnion show ?thesis
                by (auto intro: members simp: refsOfAll_def)
            next
              case notIntersection: False
              show ?thesis
              proof (cases "isClassOrInterface (tt t)")
                case True
                show ?thesis
                proof (cases "symbolName (tt t)")
                  case None
                  with True have "\<not> wellFormed tt" by (auto simp: wellFormed_def)
                  moreover from run' notArray notBoolean notUnion notIntersection True None
                  have "throw TypeError s = Some (r, s')" by simp
                  ultimately show ?thesis by (rule thrown [rotated])
                next
                  case (Some name)
                  with run' notArray notBoolean notUnion notIntersection True show ?thesis
                    by (auto split: if_splits intro: ret addRef [OF Suc.IH True]
                        extendClass_relation [OF tr Suc.IH])
                qed
              next
                case False
                with run' notArray notBoolean notUnion notIntersection show ?thesis
                  by (auto split: if_splits intro: ret extendClass_relation [OF tr Suc.IH])
              qed
            qed
          qed
        qed
      qed
    qed
  qed
qed

lemma traversalRelation_settled: "traversalRelation settled"
  unfolding traversalRelation_def
proof (intro conjI allI impI)
  fix s :: "'a config"
  show "settled s (Some {}) s" by (simp add: settled_def)
next
  fix s s1 s2 :: "'a config" and X res
  assume a: "settled s (Some X) s1" and b: "settled s1 res s2"
  show "settled s (after X res) s2"
  proof (cases res)
    case None
    then show ?thesis by (simp add: settled_def after_def)
  next
    case (Some Y)
    from a have a1: "keysOf s \<subseteq> keysOf s1"
      and a2: "cacheNames s1 \<subseteq> cacheNames s \<union> keysOf s1"
      and a3: "X \<subseteq> refPath ` (cacheNames s \<union> keysOf s1)"
      and a4: "registryRefs s1 \<subseteq> registryRefs s \<union> refPath ` (cacheNames s \<union> keysOf s1)"
      by (simp_all add: settled_def)
    from b Some have b1: "keysOf s1 \<subseteq> keysOf s2"
      and b2: "cacheNames s2 \<subseteq> cacheNames s1 \<union> keysOf s2"
      and b3: "Y \<subseteq> refPath ` (cacheNames s1 \<union> keysOf s2)"
      and b4: "registryRefs s2 \<subseteq> registryRefs s1 \<union> refPath ` (cacheNames s1 \<union> keysOf s2)"
      by (simp_all add: settled_def)
    have m: "cacheNames s1 \<union> keysOf s2 \<subseteq> cacheNames s \<union> keysOf s2"
      using a2 b1 by blast
    have m': "cacheNames s \<union> keysOf s1 \<subseteq> cacheNames s \<union> keysOf s2"
      using b1 by blast
    note i = image_mono [OF m, of refPath] and i' = image_mono [OF m', of refPath]
    have c1: "keysOf s \<subseteq> keysOf s2" using a1 b1 by (rule subset_trans)
    have c2: "cacheNames s2 \<subseteq> cacheNames s \<union> keysOf s2"
      using b2 m by (rule subset_trans)
    have x: "X \<subseteq> refPath ` (cacheNames s \<union> keysOf s2)" using a3 i' by (rule subset_trans)
    have y: "Y \<subseteq> refPath ` (cacheNames s \<union> keysOf s2)" using b3 i by (rule subset_trans)
    from x y have c3: "X \<union> Y \<subseteq> refPath ` (cacheNames s \<union> keysOf s2)" by (rule Un_least)
    have "registryRefs s1 \<subseteq> registryRefs s \<union> refPath ` (cacheNames s \<union> keysOf s2)"
      using a4 i' by (meson Un_mono order_refl subset_trans)
    moreover have "refPath ` (cacheNames s1 \<union> keysOf s2)
        \<subseteq> registryRefs s \<union> refPath ` (cacheNames s \<union> keysOf s2)"
      using i by (rule le_supI2)
    ultimately have "registryRefs s1 \<union> refPath ` (cacheNames s1 \<union> keysOf s2)
        \<subseteq> registryRefs s \<union> refPath ` (cacheNames s \<union> keysOf s2)"
      by (rule Un_least)
    with b4 have c4: "registryRefs s2
        \<subseteq> registryRefs s \<union> refPath ` (cacheNames s \<union> keysOf s2)"
      by (rule subset_trans)
    from c1 c2 c3 c4 Some show ?thesis by (simp add: settled_def after_def)
  qed
next
  fix s s' :: "'a config" and X Y :: "string set"
  assume "settled s (Some X) s'" and "Y \<subseteq> X"
  then show "settled s (Some Y) s'" by (auto simp: settled_def)
qed

lemma set_map_fst_assign: "set (map fst (assign obj k v)) = insert k (set (map fst obj))"
  by (induction obj) auto

lemma schemaName_hashCode_update:
  "schemaName ` set (cs[i := (cs ! i)\<lparr>hashCode := h\<rparr>]) \<subseteq> schemaName ` set cs"
proof (cases "i < length cs")
  case True
  have "set (cs[i := (cs ! i)\<lparr>hashCode := h\<rparr>]) \<subseteq> insert ((cs ! i)\<lparr>hashCode := h\<rparr>) (set cs)"
    by (rule set_update_subset_insert)
  moreover have "schemaName ((cs ! i)\<lparr>hashCode := h\<rparr>) \<in> schemaName ` set cs"
    using True by (simp add: image_iff) (metis nth_mem)
  ultimately show ?thesis by auto
next
  case False
  then show ?thesis by (simp add: list_update_beyond)
qed

lemma find_Some_mem: "find p xs = Some x \<Longrightarrow> x \<in> set xs"
  by (induction xs) (auto split: if_splits)

text \<open>The outcomes of \<open>addRefTypeSchema\<close>, one case for each path through it.\<close>

lemma addRefTypeSchema_cases:
  assumes "addRefTypeSchema hash rec tt t s = Some (r, s')"
  obtains
    (hit) cache where "find (\<lambda>c. cachedType c = t) (typeCache s) = Some cache"
      and "r = Inr (RefSchema None (refPath (schemaName cache)))" and "s' = s"
  | (noSymbol) "find (\<lambda>c. cachedType c = t) (typeCache s) = None"
      and "symbolName (tt t) = None" and "r = Inl TypeError" and "s' = s"
  | (expansionThrows) name e where "find (\<lambda>c. cachedType c = t) (typeCache s) = None"
      and "symbolName (tt t) = Some name"
      and "rec t (pushEntry s name t) = Some (Inl e, s')" and "r = Inl e"
  | (duplicate) name schema s2 where "find (\<lambda>c. cachedType c = t) (typeCache s) = None"
      and "symbolName (tt t) = Some name"
      and "rec t (pushEntry s name t) = Some (Inr schema, s2)"
      and "0 \<le> findIndex (\<lambda>c. hashCode c = Some (hash schema) \<and> typeName c = name) (typeCache s2)"
      and "r = Inl TypeError" and "s' = dropEntry s name s2"
  | (registered) name schema s2 where "find (\<lambda>c. cachedType c = t) (typeCache s) = None"
      and "symbolName (tt t) = Some name"
      and "rec t (pushEntry s name t) = Some (Inr schema, s2)"
      and "\<not> 0 \<le> findIndex (\<lambda>c. hashCode c = Some (hash schema) \<and> typeName c = name) (typeCache s2)"
      and "r = Inr (RefSchema None (refPath (allocateName (schemaObjects s) name)))"
      and "s' = registerEntry s name (hash schema) schema s2"
proof (cases "find (\<lambda>c. cachedType c = t) (typeCache s)")
  case (Some cache)
  with assms have "r = Inr (RefSchema None (refPath (schemaName cache)))" and "s' = s"
    by (simp_all add: addRefTypeSchema_def ok_def)
  with Some show ?thesis by (rule hit)
next
  case None
  show ?thesis
  proof (cases "symbolName (tt t)")
    case noName: None
    with assms None have "r = Inl TypeError" and "s' = s"
      by (simp_all add: addRefTypeSchema_def throw_def)
    with None noName show ?thesis by (rule noSymbol)
  next
    case (Some name)
    from assms None Some have "andThen (rec t (pushEntry s name t))
      (\<lambda>schema s2.
         if 0 \<le> findIndex (\<lambda>c. hashCode c = Some (hash schema) \<and> typeName c = name) (typeCache s2)
         then throw TypeError (dropEntry s name s2)
         else ok (RefSchema None (refPath (allocateName (schemaObjects s) name)))
                (registerEntry s name (hash schema) schema s2)) = Some (r, s')"
      unfolding addRefTypeSchema_def Let_def pushEntry_def dropEntry_def registerEntry_def
      by simp
    then show ?thesis
    proof (cases rule: andThen_SomeE)
      case (throws e)
      with None Some show ?thesis by (rule expansionThrows)
    next
      case (returns schema s2)
      show ?thesis
      proof (cases "0 \<le> findIndex (\<lambda>c. hashCode c = Some (hash schema) \<and> typeName c = name)
          (typeCache s2)")
        case True
        with returns(2) have "r = Inl TypeError" and "s' = dropEntry s name s2"
          by (simp_all add: throw_def)
        with None Some returns(1) True show ?thesis by (rule duplicate)
      next
        case False
        with returns(2)
        have "r = Inr (RefSchema None (refPath (allocateName (schemaObjects s) name)))"
          and "s' = registerEntry s name (hash schema) schema s2"
          by (simp_all add: ok_def)
        with None Some returns(1) False show ?thesis by (rule registered)
      qed
    qed
  qed
qed

lemma addRefTypeSchema_settled:
  assumes rec: "obeys settled rec"
    and run: "addRefTypeSchema hash rec tt t s = Some (r, s')"
  shows "settled s (summary r) s'"
  using run
proof (cases rule: addRefTypeSchema_cases)
  case (hit cache)
  from find_Some_mem [OF hit(1)] have "schemaName cache \<in> cacheNames s"
    by (simp add: cacheNames_def)
  then show ?thesis unfolding hit(2,3) by (simp add: settled_def summary_def)
next
  case noSymbol
  then show ?thesis by (simp add: settled_def summary_def)
next
  case (expansionThrows name e)
  then show ?thesis by (simp add: settled_def summary_def)
next
  case (duplicate name schema s2)
  then show ?thesis by (simp add: settled_def summary_def)
next
  case (registered name schema s2)
  define sname where "sname = allocateName (schemaObjects s) name"
  define s1 where "s1 = pushEntry s name t"
  from obeysD_Inr [OF rec registered(3)] have
    a1: "keysOf s1 \<subseteq> keysOf s2" and
    a2: "cacheNames s2 \<subseteq> cacheNames s1 \<union> keysOf s2" and
    a3: "set (refsOf schema) \<subseteq> refPath ` (cacheNames s1 \<union> keysOf s2)" and
    a4: "registryRefs s2 \<subseteq> registryRefs s1 \<union> refPath ` (cacheNames s1 \<union> keysOf s2)"
    by (simp_all add: settled_def s1_def)
  have k1: "keysOf s1 = keysOf s" and n1: "cacheNames s1 = insert sname (cacheNames s)"
    and g1: "registryRefs s1 = registryRefs s"
    by (simp_all add: s1_def pushEntry_def keysOf_def cacheNames_def registryRefs_def sname_def)
  have k': "keysOf s' = insert sname (keysOf s2)"
    by (simp add: registered(6) registerEntry_def keysOf_def set_map_fst_assign sname_def
      del: set_map)
  have n': "cacheNames s' \<subseteq> cacheNames s2"
    using schemaName_hashCode_update [of "typeCache s2"]
    by (simp add: registered(6) registerEntry_def cacheNames_def)
  have g': "registryRefs s' \<subseteq> registryRefs s2 \<union> set (refsOf schema)"
    using refsOfProperties_assign [of "schemaObjects s2" sname schema]
    by (simp add: registered(6) registerEntry_def registryRefs_def sname_def)
  have m: "cacheNames s1 \<union> keysOf s2 \<subseteq> cacheNames s \<union> keysOf s'"
    unfolding n1 k' by blast
  define U where "U = refPath ` (cacheNames s \<union> keysOf s')"
  define V where "V = refPath ` (cacheNames s1 \<union> keysOf s2)"
  have vu: "V \<subseteq> U" unfolding U_def V_def using m by (rule image_mono)
  have c1: "keysOf s \<subseteq> keysOf s'" using a1 k1 k' by blast
  have c2: "cacheNames s' \<subseteq> cacheNames s \<union> keysOf s'" using n' a2 m by blast
  have "sname \<in> cacheNames s \<union> keysOf s'" using k' by blast
  then have c3: "{refPath sname} \<subseteq> U" unfolding U_def by blast
  have c4: "registryRefs s' \<subseteq> registryRefs s \<union> U"
    using g' a3 [folded V_def] a4 [folded V_def] g1 vu by blast
  note c3 = c3 [unfolded U_def] and c4 = c4 [unfolded U_def]
  from c1 c2 c3 c4 show ?thesis unfolding registered(5) sname_def [symmetric]
    by (simp add: settled_def summary_def)
qed

lemma getSchemaByType_settled: "obeys settled (getSchemaByType n hash tt ext)"
proof -
  have err: "settled s None s" for s :: "'a config" by (simp add: settled_def)
  have addRef: "obeys settled rec \<Longrightarrow> addRefTypeSchema hash rec tt t s = Some (r, s')
      \<Longrightarrow> settled s (summary r) s'"
    for rec :: "tid \<Rightarrow> 'a config \<Rightarrow> (schema, 'a) outcome" and t s r s'
    by (rule addRefTypeSchema_settled)
  show ?thesis
    by (rule getSchemaByType_relation [of settled tt hash n ext, OF traversalRelation_settled])
      (rule err, rule addRef)
qed

text \<open>
  C4. When a call of \<open>getSchemaByType\<close> returns, and before it every cached name was a
  key and every stored reference named a key (as in a fresh context), then every
  \<open>$ref\<close> in the returned fragment and in every fragment of \<open>schemaObjects\<close> is
  \<open>#/components/schemas/\<close> followed by a key of \<open>schemaObjects\<close>.
\<close>

theorem references_are_registered:
  assumes "getSchemaByType n hash tt ext t s = Some (Inr r, s')"
    and "cacheNames s \<subseteq> keysOf s"
    and "registryRefs s \<subseteq> refPath ` keysOf s"
  shows "set (refsOf r) \<union> registryRefs s' \<subseteq> refPath ` keysOf s'"
proof -
  define U where "U = refPath ` keysOf s'"
  define V where "V = refPath ` (cacheNames s \<union> keysOf s')"
  define W where "W = refPath ` keysOf s"
  from obeysD_Inr [OF getSchemaByType_settled assms(1)]
  have "settled s (Some (set (refsOf r))) s'" .
  then have a1: "keysOf s \<subseteq> keysOf s'"
    and a3: "set (refsOf r) \<subseteq> V"
    and a4: "registryRefs s' \<subseteq> registryRefs s \<union> V"
    by (simp_all add: settled_def V_def)
  have m: "cacheNames s \<union> keysOf s' \<subseteq> keysOf s'" using assms(2) a1 by blast
  have wu: "W \<subseteq> U" unfolding U_def W_def using a1 by (rule image_mono)
  have vu: "V \<subseteq> U" unfolding U_def V_def using m by (rule image_mono)
  from assms(3) have "registryRefs s \<subseteq> W" by (simp add: W_def)
  with a3 a4 wu vu have "set (refsOf r) \<union> registryRefs s' \<subseteq> U" by blast
  then show ?thesis unfolding U_def .
qed

lemma nodeTable_run:
  "getSchemaByType 3 structuralHash nodeTable False 0 emptyConfig
     = Some (Inr (RefSchema None ''#/components/schemas/Node''), nodeRegistry)"
  by (simp add: run_defs nodeTable_def nodeSchema_def nodeRegistry_def structuralHash_def)

theorem references_are_registered_witness:
  "getSchemaByType 3 structuralHash nodeTable False 0 emptyConfig
     = Some (Inr (RefSchema None ''#/components/schemas/Node''), nodeRegistry)
   \<and> cacheNames (emptyConfig :: schema config) \<subseteq> keysOf (emptyConfig :: schema config)
   \<and> registryRefs (emptyConfig :: schema config) \<subseteq> refPath ` keysOf (emptyConfig :: schema config)
   \<and> set (refsOf (RefSchema None ''#/components/schemas/Node'')) \<union> registryRefs nodeRegistry
       \<subseteq> refPath ` keysOf nodeRegistry"
proof -
  have a: "cacheNames (emptyConfig :: schema config) \<subseteq> keysOf (emptyConfig :: schema config)"
    by (simp add: cacheNames_def emptyConfig_def)
  have b: "registryRefs (emptyConfig :: schema config)
      \<subseteq> refPath ` keysOf (emptyConfig :: schema config)"
    by (simp add: registryRefs_def refsOfProperties_def emptyConfig_def)
  from references_are_registered [OF nodeTable_run a b] nodeTable_run a b show ?thesis by simp
qed

section \<open>What is cached and registered\<close>











section \<open>More recursion budget changes no result\<close>

text \<open>
  Each function of the traversal gives the same outcome when the calls it makes give the
  same outcomes, so a call that ends within some depth ends the same way within any
  greater depth.
\<close>

lemma belowD: "below rec rec' \<Longrightarrow> rec u s = Some y \<Longrightarrow> rec' u s = Some y"
  unfolding below_def by blast

lemma andThen_below:
  assumes "andThen m k = Some y"
    and "\<And>z. m = Some z \<Longrightarrow> m' = Some z"
    and "\<And>x s. k x s = Some y \<Longrightarrow> k' x s = Some y"
  shows "andThen m' k' = Some y"
proof (cases m)
  case None
  with assms(1) show ?thesis by (simp add: andThen_def)
next
  case (Some z)
  from assms(2) [OF Some] have m': "m' = Some z" .
  obtain r s where z: "z = (r, s)" by (cases z)
  show ?thesis
  proof (cases r)
    case (Inl e)
    with assms(1) Some z m' show ?thesis by (simp add: andThen_def)
  next
    case (Inr x)
    with assms(1) Some z have "k x s = Some y" by (simp add: andThen_def)
    from assms(3) [OF this] Inr z m' show ?thesis by (simp add: andThen_def)
  qed
qed

lemma mapSchemas_below:
  assumes b: "below rec rec'"
  shows "mapSchemas rec ts s = Some y \<Longrightarrow> mapSchemas rec' ts s = Some y"
proof (induction ts arbitrary: s y)
  case Nil
  then show ?case by simp
next
  case (Cons t ts)
  from Cons.prems have "andThen (rec t s)
      (\<lambda>x s1. andThen (mapSchemas rec ts s1) (\<lambda>xs. ok (x # xs))) = Some y" by simp
  then have "andThen (rec' t s)
      (\<lambda>x s1. andThen (mapSchemas rec' ts s1) (\<lambda>xs. ok (x # xs))) = Some y"
  proof (rule andThen_below)
    show "rec t s = Some z \<Longrightarrow> rec' t s = Some z" for z using b by (rule belowD)
  next
    fix x s1
    assume "andThen (mapSchemas rec ts s1) (\<lambda>xs. ok (x # xs)) = Some y"
    then show "andThen (mapSchemas rec' ts s1) (\<lambda>xs. ok (x # xs)) = Some y"
      by (rule andThen_below) (rule Cons.IH, assumption)
  qed
  then show ?case by simp
qed

lemma forEachBody_below:
  assumes b: "below rec rec'"
    and run: "forEachBody rec tt symbol acc s = Some y"
  shows "forEachBody rec' tt symbol acc s = Some y"
proof -
  have derive: "andThen (rec u s) (\<lambda>v. ok (setProp symbol v acc)) = Some y
      \<Longrightarrow> andThen (rec' u s) (\<lambda>v. ok (setProp symbol v acc)) = Some y" for u
    by (erule andThen_below) (rule belowD [OF b], assumption)
  from run show ?thesis
    unfolding forEachBody_def Let_def
    by (auto split: if_splits option.splits intro: derive)
qed

lemma forEachSymbol_below:
  assumes b: "below rec rec'"
  shows "forEachSymbol rec tt symbols acc s = Some y
    \<Longrightarrow> forEachSymbol rec' tt symbols acc s = Some y"
proof (induction symbols arbitrary: acc s y)
  case Nil
  then show ?case by simp
next
  case (Cons symbol symbols)
  from Cons.prems have
    "andThen (forEachBody rec tt symbol acc s) (forEachSymbol rec tt symbols) = Some y" by simp
  then have
    "andThen (forEachBody rec' tt symbol acc s) (forEachSymbol rec' tt symbols) = Some y"
    by (rule andThen_below) (rule forEachBody_below [OF b], assumption, rule Cons.IH)
  then show ?case by simp
qed

lemma extendClass_below:
  assumes b: "below rec rec'"
    and run: "extendClass rec tt t d s = Some y"
  shows "extendClass rec' tt t d s = Some y"
proof -
  have first: "(case i of None \<Rightarrow> ok None s | Some i \<Rightarrow> andThen (rec i s) (\<lambda>a. ok (Some a))) = Some z
      \<Longrightarrow> (case i of None \<Rightarrow> ok None s | Some i \<Rightarrow> andThen (rec' i s) (\<lambda>a. ok (Some a))) = Some z"
    for i :: "tid option" and z
  proof (cases i)
    case None
    then show "(case i of None \<Rightarrow> ok None s | Some i \<Rightarrow> andThen (rec i s) (\<lambda>a. ok (Some a))) = Some z
      \<Longrightarrow> ?thesis" by simp
  next
    case (Some j)
    assume "(case i of None \<Rightarrow> ok None s | Some i \<Rightarrow> andThen (rec i s) (\<lambda>a. ok (Some a))) = Some z"
    with Some have "andThen (rec j s) (\<lambda>a. ok (Some a)) = Some z" by simp
    then have "andThen (rec' j s) (\<lambda>a. ok (Some a)) = Some z"
      by (rule andThen_below) (rule belowD [OF b], assumption)
    with Some show ?thesis by simp
  qed
  from run show ?thesis
    unfolding extendClass_def Let_def
  proof (rule andThen_below)
    fix ad s1
    assume "andThen (forEachSymbol rec tt (filter isPublic (getProperties (tt t))) ([], []) s1)
        (\<lambda>acc. ok (ObjectSchema d (fst acc) (snd acc) ad)) = Some y"
    then show "andThen (forEachSymbol rec' tt (filter isPublic (getProperties (tt t))) ([], []) s1)
        (\<lambda>acc. ok (ObjectSchema d (fst acc) (snd acc) ad)) = Some y"
      by (rule andThen_below) (rule forEachSymbol_below [OF b], assumption)
  qed (rule first)
qed

lemma addRefTypeSchema_miss:
  assumes "find (\<lambda>c. cachedType c = t) (typeCache s) = None"
    and "symbolName (tt t) = Some name"
  shows "addRefTypeSchema hash rec tt t s
    = andThen (rec t (pushEntry s name t))
        (\<lambda>schema s2.
           if 0 \<le> findIndex (\<lambda>c. hashCode c = Some (hash schema) \<and> typeName c = name)
                    (typeCache s2)
           then throw TypeError (dropEntry s name s2)
           else ok (RefSchema None (refPath (allocateName (schemaObjects s) name)))
                  (registerEntry s name (hash schema) schema s2))"
  unfolding addRefTypeSchema_def Let_def pushEntry_def dropEntry_def registerEntry_def
  using assms by simp

lemma addRefTypeSchema_below:
  assumes b: "below rec rec'"
    and run: "addRefTypeSchema hash rec tt t s = Some y"
  shows "addRefTypeSchema hash rec' tt t s = Some y"
proof (cases "find (\<lambda>c. cachedType c = t) (typeCache s)")
  case (Some cache)
  with run show ?thesis by (simp add: addRefTypeSchema_def)
next
  case None
  show ?thesis
  proof (cases "symbolName (tt t)")
    case noName: None
    with run None show ?thesis by (simp add: addRefTypeSchema_def)
  next
    case (Some name)
    from run show ?thesis
      unfolding addRefTypeSchema_miss [where tt = tt, OF None Some]
      by (rule andThen_below) (rule belowD [OF b], assumption)
  qed
qed

text \<open>A call that ends within depth \<open>n\<close> ends the same way within depth \<open>n + 1\<close>.\<close>

lemma getSchemaByType_Suc:
  "getSchemaByType n hash tt ext t0 s = Some y \<Longrightarrow> getSchemaByType (Suc n) hash tt ext t0 s = Some y"
proof (induction n arbitrary: ext t0 s y)
  case 0
  then show ?case by (simp add: getSchemaByType.simps)
next
  case (Suc n)
  have b: "below (getSchemaByType n hash tt e) (getSchemaByType (Suc n) hash tt e)" for e
    unfolding below_def using Suc.IH by blast
  show ?case
  proof (cases "unwrapPromise tt t0")
    case (Inl e)
    with Suc.prems show ?thesis by (simp add: getSchemaByType.simps)
  next
    case (Inr t)
    note run = Suc.prems [unfolded getSchemaByType.simps(2) [of n hash tt ext t0 s] Inr sum.case
      Let_def]
    have items: "andThen (getSchemaByType n hash tt e a s) k = Some y
        \<Longrightarrow> andThen (getSchemaByType (Suc n) hash tt e a s) k = Some y" for a k e
      by (erule andThen_below) (rule belowD [OF b], assumption)
    have members: "andThen (mapSchemas (getSchemaByType n hash tt e) ts s) k = Some y
        \<Longrightarrow> andThen (mapSchemas (getSchemaByType (Suc n) hash tt e) ts s) k = Some y" for ts k e
      by (erule andThen_below) (rule mapSchemas_below [OF b], assumption)
    from run show ?thesis
      unfolding getSchemaByType.simps(2) [of "Suc n" hash tt ext t0 s] Inr sum.case Let_def
      by (auto split: if_splits option.splits list.splits
          intro: items members extendClass_below [OF b] addRefTypeSchema_below [OF b])
  qed
qed

lemma getSchemaByType_rising:
  "n \<le> m \<Longrightarrow> getSchemaByType n hash tt ext t s = Some y
    \<Longrightarrow> getSchemaByType m hash tt ext t s = Some y"
  by (induction m) (auto simp: le_Suc_eq intro: getSchemaByType_Suc)

section \<open>The cache grows at its end\<close>

text \<open>
  The relation \<open>grown\<close> holds of every call.
\<close>

lemma traversalRelation_grown: "traversalRelation grown"
  unfolding traversalRelation_def
proof (intro conjI allI impI)
  fix s :: "'a config"
  show "grown s (Some {}) s" by (simp add: grown_def)
next
  fix s s1 s2 :: "'a config" and X res
  assume a: "grown s (Some X) s1" and b: "grown s1 res s2"
  show "grown s (after X res) s2"
  proof (cases res)
    case None
    then show ?thesis by (simp add: grown_def after_def)
  next
    case (Some Y)
    from a obtain new1 where "typeCache s1 = typeCache s @ new1" by (auto simp: grown_def)
    moreover from b Some obtain new2 where "typeCache s2 = typeCache s1 @ new2"
      by (auto simp: grown_def)
    ultimately have "typeCache s2 = typeCache s @ (new1 @ new2)" by simp
    then show ?thesis unfolding grown_def by blast
  qed
next
  fix s s' :: "'a config" and X Y :: "string set"
  assume "grown s (Some X) s'"
  then show "grown s (Some Y) s'" by (simp add: grown_def)
qed

lemma addRefTypeSchema_grown:
  assumes rec: "obeys grown rec"
    and run: "addRefTypeSchema hash rec tt t s = Some (r, s')"
  shows "grown s (summary r) s'"
  using run
proof (cases rule: addRefTypeSchema_cases)
  case (hit cache)
  then show ?thesis by (simp add: grown_def)
next
  case noSymbol
  then show ?thesis by (simp add: grown_def summary_def)
next
  case (expansionThrows name e)
  then show ?thesis by (simp add: grown_def summary_def)
next
  case (duplicate name schema s2)
  then show ?thesis by (simp add: grown_def summary_def)
next
  case (registered name schema s2)
  from obeysD_Inr [OF rec registered(3)] obtain new where
    "typeCache s2 = typeCache (pushEntry s name t) @ new" by (auto simp: grown_def)
  then obtain c where c: "typeCache s2 = typeCache s @ c # new"
    by (simp add: pushEntry_def)
  have "typeCache s' = typeCache s @ c\<lparr>hashCode := Some (hash schema)\<rparr> # new"
    unfolding registered(6) registerEntry_def c by (simp add: list_update_append)
  then show ?thesis unfolding grown_def by blast
qed

lemma getSchemaByType_grown: "obeys grown (getSchemaByType n hash tt ext)"
proof -
  have err: "grown s None s" for s :: "'a config" by (simp add: grown_def)
  have addRef: "obeys grown rec \<Longrightarrow> addRefTypeSchema hash rec tt t s = Some (r, s')
      \<Longrightarrow> grown s (summary r) s'"
    for rec :: "tid \<Rightarrow> 'a config \<Rightarrow> (schema, 'a) outcome" and t s r s'
    by (rule addRefTypeSchema_grown)
  show ?thesis
    by (rule getSchemaByType_relation [of grown tt hash n ext, OF traversalRelation_grown])
      (rule err, rule addRef)
qed

lemma getSchemaByType_cachedTypes:
  assumes "getSchemaByType n hash tt ext t s = Some (Inr x, s')"
  shows "cachedTypes s \<subseteq> cachedTypes s'"
proof -
  from obeysD_Inr [OF getSchemaByType_grown assms]
  obtain new where "typeCache s' = typeCache s @ new" by (auto simp: grown_def)
  then show ?thesis by (auto simp: cachedTypes_def)
qed

section \<open>Termination\<close>

text \<open>
  Each loop of the traversal ends when the calls it makes end; then, by induction on the
  number of class or interface types not yet cached and on the derivation relation outside
  the cache, every call ends.
\<close>

lemma risingD: "rising F \<Longrightarrow> n \<le> m \<Longrightarrow> F n u s = Some y \<Longrightarrow> F m u s = Some y"
  unfolding rising_def below_def by blast

lemma rising_below: "rising F \<Longrightarrow> n \<le> m \<Longrightarrow> below (F n) (F m)"
  unfolding rising_def by blast

lemma keepsD: "keeps F P \<Longrightarrow> P s \<Longrightarrow> F n u s = Some (Inr x, s') \<Longrightarrow> P s'"
  unfolding keeps_def by blast

lemma haltsOnD: "haltsOn F P S \<Longrightarrow> u \<in> S \<Longrightarrow> P s \<Longrightarrow> \<exists>n y. F n u s = Some y"
  unfolding haltsOn_def by blast

lemma haltsOn_subset: "haltsOn F P S \<Longrightarrow> S' \<subseteq> S \<Longrightarrow> haltsOn F P S'"
  unfolding haltsOn_def by blast

lemma andThen_ok_Some: "m = Some y \<Longrightarrow> \<exists>z. andThen m (\<lambda>v. ok (f v)) = Some z"
  by (cases y) (auto simp: andThen_def ok_def split: sum.splits)

lemma mapSchemas_halts:
  assumes r: "rising F" and k: "keeps F P"
  shows "haltsOn F P (set ts) \<Longrightarrow> P s \<Longrightarrow> \<exists>n y. mapSchemas (F n) ts s = Some y"
proof (induction ts arbitrary: s)
  case Nil
  show ?case by (simp add: ok_def)
next
  case (Cons t ts)
  from haltsOnD [OF Cons.prems(1) _ Cons.prems(2), of t]
  obtain n1 r1 s1 where f: "F n1 t s = Some (r1, s1)" by auto
  show ?case
  proof (cases r1)
    case (Inl e)
    with f have "mapSchemas (F n1) (t # ts) s = Some (Inl e, s1)" by (simp add: andThen_def)
    then show ?thesis by blast
  next
    case (Inr x)
    with f keepsD [OF k Cons.prems(2)] have "P s1" by blast
    moreover from Cons.prems(1) have "haltsOn F P (set ts)" by (rule haltsOn_subset) auto
    ultimately obtain n2 y2 where m: "mapSchemas (F n2) ts s1 = Some y2"
      using Cons.IH by blast
    define n where "n = max n1 n2"
    have "F n t s = Some (Inr x, s1)" using risingD [OF r _ f, of n] Inr by (simp add: n_def)
    moreover have "mapSchemas (F n) ts s1 = Some y2"
      using mapSchemas_below [OF rising_below [OF r, of n2 n] m] by (simp add: n_def)
    moreover obtain z where "andThen (Some y2) (\<lambda>xs. ok (x # xs)) = Some z"
      using andThen_ok_Some [of "Some y2" y2 "\<lambda>xs. x # xs"] by auto
    ultimately have "mapSchemas (F n) (t # ts) s = Some z" by (simp add: andThen_def)
    then show ?thesis by blast
  qed
qed

lemma forEachBody_halts:
  assumes h: "haltsOn F P (set (symbolTypes tt symbol))" and p: "P s"
  shows "\<exists>n y. forEachBody (F n) tt symbol acc s = Some y"
proof -
  have derive: "\<exists>n y. andThen (F n u s) (\<lambda>v. ok (setProp symbol v acc)) = Some y"
    if "u \<in> set (symbolTypes tt symbol)" for u
  proof -
    from haltsOnD [OF h that p] obtain n y where "F n u s = Some y" by auto
    from andThen_ok_Some [OF this, of "\<lambda>v. setProp symbol v acc"] show ?thesis by blast
  qed
  show ?thesis
  proof (cases "symbolTypes tt symbol")
    case Nil
    then have "forEachBody (F 0) tt symbol acc s = Some (Inr acc, s)
        \<or> forEachBody (F 0) tt symbol acc s
          = Some (Inr (setProp symbol (TypeSchema None ''any'' None) acc), s)"
      unfolding forEachBody_def symbolTypes_def Let_def
      by (auto simp: ok_def split: if_splits option.splits)
    then show ?thesis by blast
  next
    case (Cons u us)
    then have u: "u \<in> set (symbolTypes tt symbol)" by simp
    from Cons have "forEachBody (F n) tt symbol acc s
        = andThen (F n u s) (\<lambda>v. ok (setProp symbol v acc))" for n
      unfolding forEachBody_def symbolTypes_def Let_def
      by (auto split: if_splits option.splits)
    with derive [OF u] show ?thesis by simp
  qed
qed

lemma forEachBody_keeps:
  assumes k: "keeps F P" and p: "P s"
    and run: "forEachBody (F n) tt symbol acc s = Some (Inr acc', s')"
  shows "P s'"
proof -
  have derive: "andThen (F n u s) (\<lambda>v. ok (setProp symbol v acc)) = Some (Inr acc', s') \<Longrightarrow> P s'"
    for u
  proof (erule andThen_SomeE)
    fix x s1
    assume "F n u s = Some (Inr x, s1)" and "ok (setProp symbol x acc) s1 = Some (Inr acc', s')"
    with keepsD [OF k p] show "P s'" by (auto simp: ok_def)
  qed simp
  from run p show ?thesis
    unfolding forEachBody_def Let_def
    by (auto simp: ok_def split: if_splits option.splits intro: derive)
qed

lemma forEachSymbol_halts:
  assumes r: "rising F" and k: "keeps F P"
  shows "haltsOn F P (set (concat (map (symbolTypes tt) symbols))) \<Longrightarrow> P s
    \<Longrightarrow> \<exists>n y. forEachSymbol (F n) tt symbols acc s = Some y"
proof (induction symbols arbitrary: acc s)
  case Nil
  show ?case by (simp add: ok_def)
next
  case (Cons symbol symbols)
  from Cons.prems(1) have h1: "haltsOn F P (set (symbolTypes tt symbol))"
    and h2: "haltsOn F P (set (concat (map (symbolTypes tt) symbols)))"
    by (auto elim: haltsOn_subset)
  from forEachBody_halts [OF h1 Cons.prems(2), of acc]
  obtain n1 r1 s1 where f: "forEachBody (F n1) tt symbol acc s = Some (r1, s1)" by fastforce
  show ?case
  proof (cases r1)
    case (Inl e)
    with f have "forEachSymbol (F n1) tt (symbol # symbols) acc s = Some (Inl e, s1)"
      by (simp add: andThen_def)
    then show ?thesis by blast
  next
    case (Inr acc1)
    with f forEachBody_keeps [OF k Cons.prems(2)] have "P s1" by blast
    with Cons.IH [OF h2] obtain n2 y2 where
      m: "forEachSymbol (F n2) tt symbols acc1 s1 = Some y2" by blast
    define n where "n = max n1 n2"
    have "forEachBody (F n) tt symbol acc s = Some (Inr acc1, s1)"
      using forEachBody_below [OF rising_below [OF r, of n1 n] f] Inr by (simp add: n_def)
    moreover have "forEachSymbol (F n) tt symbols acc1 s1 = Some y2"
      using forEachSymbol_below [OF rising_below [OF r, of n2 n] m] by (simp add: n_def)
    ultimately have "forEachSymbol (F n) tt (symbol # symbols) acc s = Some y2"
      by (simp add: andThen_def)
    then show ?thesis by blast
  qed
qed

lemma extendClass_halts:
  assumes r: "rising F" and k: "keeps F P"
    and h: "haltsOn F P (set (expandedTypes tt t))" and p: "P s"
  shows "\<exists>n y. extendClass (F n) tt t d s = Some y"
proof -
  define index where "index = (case numberIndexType (tt t) of
      Some i \<Rightarrow> Some i | None \<Rightarrow> stringIndexType (tt t))"
  define symbols where "symbols = filter isPublic (getProperties (tt t))"
  have e: "extendClass (F n) tt t d s1 = andThen
      (case index of None \<Rightarrow> ok None s1 | Some i \<Rightarrow> andThen (F n i s1) (\<lambda>a. ok (Some a)))
      (\<lambda>ad s2. andThen (forEachSymbol (F n) tt symbols ([], []) s2)
         (\<lambda>acc. ok (ObjectSchema d (fst acc) (snd acc) ad)))" for n s1
    unfolding extendClass_def Let_def index_def symbols_def ..
  from h have hs: "haltsOn F P (set (concat (map (symbolTypes tt) symbols)))"
    by (rule haltsOn_subset) (auto simp: expandedTypes_def symbols_def)
  have members: "\<exists>n y. andThen (forEachSymbol (F n) tt symbols ([], []) s1)
      (\<lambda>acc. ok (ObjectSchema d (fst acc) (snd acc) ad)) = Some y" if "P s1" for s1 ad
  proof -
    from forEachSymbol_halts [OF r k hs that, of "([], [])"]
    obtain n y where "forEachSymbol (F n) tt symbols ([], []) s1 = Some y" by blast
    from andThen_ok_Some [OF this, of "\<lambda>acc. ObjectSchema d (fst acc) (snd acc) ad"]
    show ?thesis by blast
  qed
  show ?thesis
  proof (cases index)
    case None
    with members [OF p, of None] show ?thesis unfolding e by (simp add: andThen_def ok_def)
  next
    case (Some i)
    with h have "i \<in> set (expandedTypes tt t)" by (simp add: expandedTypes_def index_def)
    from haltsOnD [OF h this p] obtain n1 r1 s1 where f: "F n1 i s = Some (r1, s1)" by auto
    show ?thesis
    proof (cases r1)
      case (Inl err)
      with f Some have "extendClass (F n1) tt t d s = Some (Inl err, s1)"
        unfolding e by (simp add: andThen_def)
      then show ?thesis by blast
    next
      case (Inr a)
      with f keepsD [OF k p] have "P s1" by blast
      from members [OF this, of "Some a"] obtain n2 y where
        m: "andThen (forEachSymbol (F n2) tt symbols ([], []) s1)
          (\<lambda>acc. ok (ObjectSchema d (fst acc) (snd acc) (Some a))) = Some y" by blast
      define n where "n = max n1 n2"
      have "F n i s = Some (Inr a, s1)" using risingD [OF r _ f, of n] Inr by (simp add: n_def)
      moreover have "andThen (forEachSymbol (F n) tt symbols ([], []) s1)
          (\<lambda>acc. ok (ObjectSchema d (fst acc) (snd acc) (Some a))) = Some y"
        using m
        by (rule andThen_below)
          (rule forEachSymbol_below [OF rising_below [OF r, of n2 n]], simp add: n_def)
      ultimately have "extendClass (F n) tt t d s = Some y"
        unfolding e using Some by (simp add: andThen_def ok_def)
      then show ?thesis by blast
    qed
  qed
qed

lemma getSchemaByType_family_rising: "rising (\<lambda>n. getSchemaByType n hash tt e)"
  unfolding rising_def below_def using getSchemaByType_rising by blast

lemma getSchemaByType_classArm:
  assumes "unwrapPromise tt t0 = Inr t" and "classArm tt t"
  shows "getSchemaByType (Suc n) hash tt ext t0 s
    = (case symbolName (tt t) of
         None \<Rightarrow> throw TypeError s
       | Some name \<Rightarrow>
           if name = ''Date'' then ok (TypeSchema (defaultDescription (tt t)) ''string'' (Some ''date'')) s
           else if name = ''Object'' then ok (TypeSchema (defaultDescription (tt t)) ''any'' None) s
           else if ext
             then extendClass (getSchemaByType n hash tt False) tt t (defaultDescription (tt t)) s
             else addRefTypeSchema hash (getSchemaByType n hash tt True) tt t s)"
  using assms by (simp add: getSchemaByType.simps classArm_def Let_def)

lemma inline_call_halts:
  assumes k: "\<And>e. keeps (\<lambda>n. getSchemaByType n hash tt e) P"
    and u: "unwrapPromise tt t0 = Inr t"
    and nc: "\<not> classArm tt t"
    and h1: "haltsOn (\<lambda>n. getSchemaByType n hash tt ext) P (set (inlineTypes tt t0))"
    and h2: "haltsOn (\<lambda>n. getSchemaByType n hash tt False) P (set (inlineTypes tt t0))"
    and p: "P s"
  shows "\<exists>n y. getSchemaByType n hash tt ext t0 s = Some y"
proof -
  note r = getSchemaByType_family_rising
  let ?d = "defaultDescription (tt t)"
  have now: "getSchemaByType (Suc 0) hash tt ext t0 s = Some y \<Longrightarrow> ?thesis" for y by blast
  have members: "\<exists>n y. andThen (mapSchemas (getSchemaByType n hash tt ext) (memberTypes (tt t)) s)
      (\<lambda>xs. ok (f xs)) = Some y" if "inlineTypes tt t0 = memberTypes (tt t)" for f
  proof -
    from h1 that have "haltsOn (\<lambda>n. getSchemaByType n hash tt ext) P (set (memberTypes (tt t)))"
      by simp
    from mapSchemas_halts [OF r k this p] obtain n y where
      "mapSchemas (getSchemaByType n hash tt ext) (memberTypes (tt t)) s = Some y" by blast
    from andThen_ok_Some [OF this, of f] show ?thesis by blast
  qed
  show ?thesis
  proof (cases "isArrayType (tt t)")
    case True
    show ?thesis
    proof (cases "typeArguments (tt t)")
      case None
      with u True show ?thesis by (intro now) (simp add: getSchemaByType.simps throw_def)
    next
      case (Some as)
      show ?thesis
      proof (cases as)
        case Nil
        with u True Some show ?thesis
          by (intro now) (simp add: getSchemaByType.simps throw_def)
      next
        case (Cons a as')
        with u True Some have "a \<in> set (inlineTypes tt t0)" by (simp add: inlineTypes_def)
        from haltsOnD [OF h1 this p] obtain n y where
          "getSchemaByType n hash tt ext a s = Some y" by blast
        from andThen_ok_Some [OF this, of "\<lambda>items. ArraySchema ?d items"]
        obtain z where "andThen (getSchemaByType n hash tt ext a s)
          (\<lambda>items. ok (ArraySchema ?d items)) = Some z" by blast
        with u True Some Cons have "getSchemaByType (Suc n) hash tt ext t0 s = Some z"
          by (simp add: getSchemaByType.simps)
        then show ?thesis by blast
      qed
    qed
  next
    case notArray: False
    show ?thesis
    proof (cases "flagBoolean (tt t)")
      case True
      with u notArray show ?thesis by (intro now) (simp add: getSchemaByType.simps ok_def)
    next
      case notBoolean: False
      show ?thesis
      proof (cases "isUnion (tt t)")
        case True
        show ?thesis
        proof (cases "list_all (\<lambda>u. flagEnumLiteral (tt u)) (memberTypes (tt t))")
          case allEnum: True
          with u notArray notBoolean True show ?thesis
            by (intro now) (simp add: getSchemaByType.simps ok_def)
        next
          case False
          with u notArray notBoolean True have "inlineTypes tt t0 = memberTypes (tt t)"
            by (simp add: inlineTypes_def)
          from members [OF this, of "OneOfSchema ?d"] obtain n y where
            "andThen (mapSchemas (getSchemaByType n hash tt ext) (memberTypes (tt t)) s)
              (\<lambda>xs. ok (OneOfSchema ?d xs)) = Some y" by blast
          with u notArray notBoolean True False
          have "getSchemaByType (Suc n) hash tt ext t0 s = Some y"
            by (simp add: getSchemaByType.simps)
          then show ?thesis by blast
        qed
      next
        case notUnion: False
        show ?thesis
        proof (cases "isIntersection (tt t)")
          case True
          with u notArray notBoolean notUnion have "inlineTypes tt t0 = memberTypes (tt t)"
            by (simp add: inlineTypes_def)
          from members [OF this, of "AllOfSchema ?d"] obtain n y where
            "andThen (mapSchemas (getSchemaByType n hash tt ext) (memberTypes (tt t)) s)
              (\<lambda>xs. ok (AllOfSchema ?d xs)) = Some y" by blast
          with u notArray notBoolean notUnion True
          have "getSchemaByType (Suc n) hash tt ext t0 s = Some y"
            by (simp add: getSchemaByType.simps)
          then show ?thesis by blast
        next
          case notIntersection: False
          with nc notArray notBoolean notUnion have notClass: "\<not> isClassOrInterface (tt t)"
            by (simp add: classArm_def)
          show ?thesis
          proof (cases "flagAnonymous (tt t)")
            case True
            with u notArray notBoolean notUnion notIntersection notClass
            have "inlineTypes tt t0 = expandedTypes tt t" by (simp add: inlineTypes_def)
            with h2 have "haltsOn (\<lambda>n. getSchemaByType n hash tt False) P
              (set (expandedTypes tt t))" by simp
            from extendClass_halts [OF r k this p, of ?d] obtain n y where
              "extendClass (getSchemaByType n hash tt False) tt t ?d s = Some y" by blast
            with u notArray notBoolean notUnion notIntersection notClass True
            have "getSchemaByType (Suc n) hash tt ext t0 s = Some y"
              by (simp add: getSchemaByType.simps)
            then show ?thesis by blast
          next
            case False
            with u notArray notBoolean notUnion notIntersection notClass show ?thesis
              by (intro now) (simp add: getSchemaByType.simps ok_def)
          qed
        qed
      qed
    qed
  qed
qed

lemma find_None_cachedTypes:
  "find (\<lambda>c. cachedType c = t) (typeCache s) = None \<Longrightarrow> t \<notin> cachedTypes s"
  by (auto simp: find_None_iff cachedTypes_def)

lemma addRefTypeSchema_halts:
  assumes "find (\<lambda>c. cachedType c = t) (typeCache s) = None \<Longrightarrow> symbolName (tt t) = Some name
      \<Longrightarrow> \<exists>y. rec t (pushEntry s name t) = Some y"
    and "symbolName (tt t) = Some name"
  shows "\<exists>y. addRefTypeSchema hash rec tt t s = Some y"
proof (cases "find (\<lambda>c. cachedType c = t) (typeCache s)")
  case (Some cache)
  then show ?thesis by (simp add: addRefTypeSchema_def ok_def)
next
  case None
  from assms(1) [OF None assms(2)] obtain r1 s1 where
    f: "rec t (pushEntry s name t) = Some (r1, s1)" by auto
  show ?thesis
    unfolding addRefTypeSchema_miss [where tt = tt, OF None assms(2)] f
    by (cases r1) (simp_all add: andThen_def throw_def ok_def)
qed

lemma traversal_halts:
  assumes fin: "finite {t. isClassOrInterface (tt t)}"
    and wf: "wf {(c, p). c \<in> set (inlineTypes tt p)}"
  shows "\<exists>n y. getSchemaByType n hash tt ext t0 (s :: 'h config) = Some y"
proof -
  define N where "N = {t. isClassOrInterface (tt t)}"
  define weight :: "'h config \<Rightarrow> nat" where "weight s = card (N - cachedTypes s)" for s
  note r = getSchemaByType_family_rising
  have main: "\<forall>s. weight s = k \<longrightarrow> (\<forall>e p. \<exists>n y. getSchemaByType n hash tt e p s = Some y)" for k
  proof (induction k rule: less_induct)
    case (less k)
    define P :: "'h config \<Rightarrow> bool" where "P s = (weight s \<le> k)" for s
    have lower: "\<exists>n y. getSchemaByType n hash tt e p s = Some y" if "weight s < k" for e p s
      using less.IH [OF that] by blast
    have k: "keeps (\<lambda>n. getSchemaByType n hash tt e) P" for e
      unfolding keeps_def
    proof (intro allI impI)
      fix n u s x s'
      assume p: "P s" and run: "getSchemaByType n hash tt e u s = Some (Inr x, s')"
      from getSchemaByType_cachedTypes [OF run] have "N - cachedTypes s' \<subseteq> N - cachedTypes s"
        by blast
      moreover have "finite (N - cachedTypes s)" using fin by (simp add: N_def)
      ultimately have "weight s' \<le> weight s" unfolding weight_def by (rule card_mono [rotated])
      with p show "P s'" by (simp add: P_def)
    qed
    have pushed: "\<exists>n y. getSchemaByType n hash tt True t (pushEntry s name t) = Some y"
      if "P s" and "isClassOrInterface (tt t)"
        and "find (\<lambda>c. cachedType c = t) (typeCache s) = None" for s t name
    proof -
      from that(2,3) have "t \<in> N - cachedTypes s"
        by (simp add: N_def find_None_cachedTypes)
      moreover have "finite (N - cachedTypes s)" using fin by (simp add: N_def)
      ultimately have "card (N - cachedTypes s - {t}) < card (N - cachedTypes s)"
        by (rule card_Diff1_less [rotated])
      moreover have "N - cachedTypes (pushEntry s name t) = N - cachedTypes s - {t}"
        by (auto simp: pushEntry_def cachedTypes_def)
      ultimately have "weight (pushEntry s name t) < weight s" by (simp add: weight_def)
      with that(1) have "weight (pushEntry s name t) < k" by (simp add: P_def)
      then show ?thesis by (rule lower)
    qed
    have classRef: "\<exists>n y. getSchemaByType n hash tt False p s = Some y"
      if "P s" and u: "unwrapPromise tt p = Inr t" and c: "classArm tt t" for p t s
    proof (cases "symbolName (tt t)")
      case None
      then have "getSchemaByType (Suc 0) hash tt False p s = Some (Inl TypeError, s)"
        unfolding getSchemaByType_classArm [OF u c] by (simp add: throw_def)
      then show ?thesis by blast
    next
      case (Some name)
      from c have cls: "isClassOrInterface (tt t)" by (simp add: classArm_def)
      show ?thesis
      proof (cases "find (\<lambda>c. cachedType c = t) (typeCache s)")
        case found: (Some cache)
        then have "\<exists>y. getSchemaByType (Suc 0) hash tt False p s = Some y"
          unfolding getSchemaByType_classArm [OF u c] Some
          by (simp add: addRefTypeSchema_def ok_def)
        then show ?thesis by blast
      next
        case None
        from pushed [OF that(1) cls None, of name] obtain n y where
          f: "getSchemaByType n hash tt True t (pushEntry s name t) = Some y" by blast
        then have "\<exists>y. addRefTypeSchema hash (getSchemaByType n hash tt True) tt t s = Some y"
          using Some by (intro addRefTypeSchema_halts [where name = name]) simp_all
        then have "\<exists>y. getSchemaByType (Suc n) hash tt False p s = Some y"
          unfolding getSchemaByType_classArm [OF u c] Some by (simp add: ok_def)
        then show ?thesis by blast
      qed
    qed
    have ref: "\<forall>s. P s \<longrightarrow> (\<exists>n y. getSchemaByType n hash tt False p s = Some y)" for p
    proof (induction p rule: wf_induct_rule [OF wf])
      case (1 p)
      then have h: "haltsOn (\<lambda>n. getSchemaByType n hash tt False) P (set (inlineTypes tt p))"
        unfolding haltsOn_def by simp
      show ?case
      proof (intro allI impI)
        fix s assume p: "P s"
        show "\<exists>n y. getSchemaByType n hash tt False p s = Some y"
        proof (cases "unwrapPromise tt p")
          case (Inl e)
          then have "getSchemaByType (Suc 0) hash tt False p s = Some (Inl e, s)"
            by (simp add: getSchemaByType.simps throw_def)
          then show ?thesis by blast
        next
          case (Inr t)
          show ?thesis
          proof (cases "classArm tt t")
            case True
            with p Inr show ?thesis by (rule classRef)
          next
            case False
            from k Inr False h h p show ?thesis by (rule inline_call_halts)
          qed
        qed
      qed
    qed
    then have refAll: "haltsOn (\<lambda>n. getSchemaByType n hash tt False) P S" for S
      unfolding haltsOn_def by blast
    have ext: "\<forall>s. P s \<longrightarrow> (\<exists>n y. getSchemaByType n hash tt True p s = Some y)" for p
    proof (induction p rule: wf_induct_rule [OF wf])
      case (1 p)
      then have h: "haltsOn (\<lambda>n. getSchemaByType n hash tt True) P (set (inlineTypes tt p))"
        unfolding haltsOn_def by simp
      show ?case
      proof (intro allI impI)
        fix s assume p: "P s"
        show "\<exists>n y. getSchemaByType n hash tt True p s = Some y"
        proof (cases "unwrapPromise tt p")
          case (Inl e)
          then have "getSchemaByType (Suc 0) hash tt True p s = Some (Inl e, s)"
            by (simp add: getSchemaByType.simps throw_def)
          then show ?thesis by blast
        next
          case (Inr t)
          show ?thesis
          proof (cases "classArm tt t")
            case True
            from extendClass_halts [OF r k refAll p, of tt t "defaultDescription (tt t)"]
            obtain n y where
              e: "extendClass (getSchemaByType n hash tt False) tt t (defaultDescription (tt t)) s
                = Some y" by blast
            have "\<exists>y. getSchemaByType (Suc n) hash tt True p s = Some y"
              unfolding getSchemaByType_classArm [OF Inr True] e
              by (simp add: throw_def ok_def split: option.splits)
            then show ?thesis by blast
          next
            case False
            from k Inr False h refAll p show ?thesis by (rule inline_call_halts)
          qed
        qed
      qed
    qed
    show ?case
    proof (intro allI impI)
      fix s e p
      assume "weight s = k"
      then have "P s" by (simp add: P_def)
      with ref [of p] ext [of p] show "\<exists>n y. getSchemaByType n hash tt e p s = Some y"
        by (cases e) auto
    qed
  qed
  then show ?thesis by blast
qed

lemma find_append_hit:
  "find p xs = None \<Longrightarrow> p c \<Longrightarrow> find p (xs @ c # ys) = Some c"
  by (induction xs) (auto split: if_splits)

lemma cached_reference:
  assumes c: "classArm tt t" and n: "symbolName (tt t) = Some name"
    and p: "name \<noteq> ''Promise''" "name \<noteq> ''Date''" "name \<noteq> ''Object''"
    and f: "find (\<lambda>c. cachedType c = t) (typeCache s) = None"
    and g: "typeCache s2 = typeCache (pushEntry s name t) @ new"
  shows "getSchemaByType (Suc m) hash tt False t s2
    = Some (Inr (RefSchema None (refPath (allocateName (schemaObjects s) name))), s2)"
proof -
  from n p(1) have u: "unwrapPromise tt t = Inr t" by (simp add: unwrapPromise_def)
  define cd :: "'a TypeCache" where "cd = \<lparr>typeName = name,
    schemaName = allocateName (schemaObjects s) name, cachedType = t, hashCode = None\<rparr>"
  from g have "typeCache s2 = typeCache s @ cd # new" by (simp add: pushEntry_def cd_def)
  with find_append_hit [OF f, of cd new]
  have "find (\<lambda>c. cachedType c = t) (typeCache s2) = Some cd" by (simp add: cd_def)
  then have "addRefTypeSchema hash rec tt t s2
      = Some (Inr (RefSchema None (refPath (allocateName (schemaObjects s) name))), s2)" for rec
    by (simp add: addRefTypeSchema_def ok_def cd_def)
  then show ?thesis
    unfolding getSchemaByType_classArm [OF u c] using n p by simp
qed

section \<open>The fragment that is registered\<close>

text \<open>
  Which calls the expansion of a type makes, and where their results are in the fragment
  it builds: a member derived from a type is stored under its name, and the references of
  every fragment derived on the way are references of the fragment. A call in reference
  mode on a class or interface type returns the \<open>$ref\<close> of the name that \<open>typeCache\<close>
  holds for the type afterwards, and later calls leave that name in place.
\<close>

lemma map_of_assign: "map_of (assign ps k v) k' = (if k' = k then Some v else map_of ps k')"
  by (induction ps) auto

lemma find_append_cases:
  "find p (xs @ ys) = (case find p xs of None \<Rightarrow> find p ys | Some x \<Rightarrow> Some x)"
  by (induction xs) auto

lemma find_view:
  "map_option schemaName (find (\<lambda>c. cachedType c = t) xs)
    = map_option snd (find (\<lambda>p. fst p = t) (map (\<lambda>c. (cachedType c, schemaName c)) xs))"
  by (induction xs) auto

lemma cachedName_grown:
  assumes "cachedName tt s p = Some k" and "typeCache s2 = typeCache s @ new"
  shows "cachedName tt s2 p = Some k"
  using assms unfolding cachedName_def
  by (auto simp: find_append_cases split: option.splits)

lemma cachedName_view:
  assumes "map (\<lambda>c. (cachedType c, schemaName c)) (typeCache s2)
    = map (\<lambda>c. (cachedType c, schemaName c)) (typeCache s)"
  shows "cachedName tt s2 p = cachedName tt s p"
  unfolding cachedName_def find_view assms ..

lemma registerEntry_cache:
  assumes "typeCache s2 = typeCache (pushEntry s name t) @ new"
  shows "typeCache (registerEntry s name h schema s2)
    = typeCache s @ \<lparr>typeName = name, schemaName = allocateName (schemaObjects s) name,
        cachedType = t, hashCode = Some h\<rparr> # new"
  unfolding registerEntry_def using assms by (simp add: pushEntry_def list_update_append)

lemma grownD: "obeys grown rec \<Longrightarrow> rec u s = Some (Inr v, s') \<Longrightarrow> \<exists>new. typeCache s' = typeCache s @ new"
  using obeysD_Inr [of grown rec u s v s'] by (simp add: grown_def)

lemma classTarget_call:
  assumes "classTarget tt p = Some t"
  shows "getSchemaByType (Suc m) hash tt False p s
    = addRefTypeSchema hash (getSchemaByType m hash tt True) tt t s"
proof -
  from assms have u: "unwrapPromise tt p = Inr t" and c: "classArm tt t"
    and n: "symbolName (tt t) \<noteq> None" "symbolName (tt t) \<noteq> Some ''Date''"
      "symbolName (tt t) \<noteq> Some ''Object''"
    by (auto simp: classTarget_def split: sum.splits if_splits)
  from n show ?thesis unfolding getSchemaByType_classArm [OF u c] by auto
qed

lemma classTarget_returns:
  assumes ct: "classTarget tt p = Some t"
    and run: "getSchemaByType n hash tt False p s = Some (Inr x, s')"
  shows "\<exists>k. x = RefSchema None (refPath k) \<and> cachedName tt s' p = Some k"
proof (cases n)
  case 0
  with run show ?thesis by (simp add: getSchemaByType.simps)
next
  case (Suc m)
  from run have "addRefTypeSchema hash (getSchemaByType m hash tt True) tt t s = Some (Inr x, s')"
    unfolding Suc classTarget_call [OF ct] .
  then show ?thesis
  proof (cases rule: addRefTypeSchema_cases)
    case (hit cache)
    then show ?thesis using ct by (simp add: cachedName_def)
  next
    case noSymbol
    then show ?thesis by simp
  next
    case (expansionThrows name e)
    then show ?thesis by simp
  next
    case (duplicate name schema s2)
    then show ?thesis by simp
  next
    case (registered name schema s2)
    from grownD [OF getSchemaByType_grown registered(3)] obtain new where
      "typeCache s2 = typeCache (pushEntry s name t) @ new" by blast
    from registerEntry_cache [OF this, of "hash schema" schema]
    have "typeCache s' = typeCache s @ \<lparr>typeName = name,
        schemaName = allocateName (schemaObjects s) name,
        cachedType = t, hashCode = Some (hash schema)\<rparr> # new"
      unfolding registered(6) .
    with registered(1) have "cachedName tt s' p = Some (allocateName (schemaObjects s) name)"
      using ct by (simp add: cachedName_def find_append_cases)
    with registered(5) show ?thesis by simp
  qed
qed

lemma mapSchemas_subcall:
  assumes g: "obeys grown rec"
  shows "mapSchemas rec ts s = Some (Inr xs, s') \<Longrightarrow> y \<in> set ts
    \<Longrightarrow> \<exists>v s1 s2 new. rec y s1 = Some (Inr v, s2) \<and> typeCache s' = typeCache s2 @ new
          \<and> v \<in> set xs"
proof (induction ts arbitrary: s xs)
  case Nil
  then show ?case by simp
next
  case (Cons t ts)
  from Cons.prems(1) have "andThen (rec t s)
      (\<lambda>x s1. andThen (mapSchemas rec ts s1) (\<lambda>xs. ok (x # xs))) = Some (Inr xs, s')" by simp
  then show ?case
  proof (cases rule: andThen_SomeE)
    case (throws e)
    then show ?thesis by simp
  next
    case (returns x s1)
    from returns(2) show ?thesis
    proof (cases rule: andThen_SomeE)
      case (throws e)
      then show ?thesis by simp
    next
      case inner: (returns xs' s2)
      from inner(2) have xs: "xs = x # xs'" and s2: "s2 = s'" by (simp_all add: ok_def)
      show ?thesis
      proof (cases "y = t")
        case True
        from mapSchemas_relation [OF traversalRelation_grown g inner(1)]
        obtain new where "typeCache s' = typeCache s1 @ new" by (auto simp: grown_def s2)
        with returns(1) True xs show ?thesis by auto
      next
        case False
        with Cons.prems(2) have "y \<in> set ts" by simp
        from Cons.IH [OF inner(1) [unfolded s2] this] xs show ?thesis by auto
      qed
    qed
  qed
qed

lemma forEachBody_result:
  assumes "forEachBody rec tt symbol acc s = Some (Inr acc', s')"
  shows "acc' = acc \<or> (\<exists>v. acc' = setProp symbol v acc)"
proof -
  have derive: "andThen (rec u s) (\<lambda>v. ok (setProp symbol v acc)) = Some (Inr acc', s')
      \<Longrightarrow> \<exists>v. acc' = setProp symbol v acc" for u
    by (erule andThen_SomeE) (auto simp: ok_def)
  from assms show ?thesis
    unfolding forEachBody_def Let_def
    by (auto simp: ok_def split: if_splits option.splits dest: derive)
qed

lemma map_of_setProp:
  "map_of (fst (setProp symbol v acc)) k
    = (if k = escapedName symbol then Some (withDescription (symbolComment symbol) v)
       else map_of (fst acc) k)"
  by (simp add: setProp_def Let_def map_of_assign)

lemma forEachSymbol_keeps:
  "forEachSymbol rec tt symbols acc s = Some (Inr acc', s') \<Longrightarrow> k \<notin> escapedName ` set symbols
    \<Longrightarrow> map_of (fst acc') k = map_of (fst acc) k"
proof (induction symbols arbitrary: acc s)
  case Nil
  then show ?case by (simp add: ok_def)
next
  case (Cons symbol symbols)
  from Cons.prems(1) have
    "andThen (forEachBody rec tt symbol acc s) (forEachSymbol rec tt symbols) = Some (Inr acc', s')"
    by simp
  then show ?case
  proof (cases rule: andThen_SomeE)
    case (throws e)
    then show ?thesis by simp
  next
    case (returns acc1 s1)
    from Cons.prems(2) have k: "k \<noteq> escapedName symbol" "k \<notin> escapedName ` set symbols"
      by auto
    from forEachBody_result [OF returns(1)] k(1)
    have "map_of (fst acc1) k = map_of (fst acc) k" by (auto simp: map_of_setProp)
    with Cons.IH [OF returns(2) k(2)] show ?thesis by simp
  qed
qed

lemma symbolTypes_singleton: "u \<in> set (symbolTypes tt symbol) \<Longrightarrow> symbolTypes tt symbol = [u]"
  unfolding symbolTypes_def by (cases "valueDeclaration symbol") (auto split: if_splits option.splits)

lemma forEachBody_subcall:
  assumes "forEachBody rec tt symbol acc s = Some (Inr acc', s')"
    and "symbolTypes tt symbol = [u]"
  shows "\<exists>v. rec u s = Some (Inr v, s') \<and> acc' = setProp symbol v acc"
proof -
  from assms(2) have "forEachBody rec tt symbol acc s
      = andThen (rec u s) (\<lambda>v. ok (setProp symbol v acc))"
    unfolding forEachBody_def symbolTypes_def Let_def
    by (auto split: if_splits option.splits)
  with assms(1) have "andThen (rec u s) (\<lambda>v. ok (setProp symbol v acc)) = Some (Inr acc', s')"
    by simp
  then show ?thesis by (cases rule: andThen_SomeE) (auto simp: ok_def)
qed

lemma forEachSymbol_subcall:
  assumes g: "obeys grown rec"
  shows "forEachSymbol rec tt symbols acc s = Some (Inr acc', s')
    \<Longrightarrow> distinct (map escapedName symbols) \<Longrightarrow> symbol \<in> set symbols
    \<Longrightarrow> symbolTypes tt symbol = [u]
    \<Longrightarrow> \<exists>v s1 s2 new. rec u s1 = Some (Inr v, s2) \<and> typeCache s' = typeCache s2 @ new
          \<and> map_of (fst acc') (escapedName symbol)
              = Some (withDescription (symbolComment symbol) v)"
proof (induction symbols arbitrary: acc s)
  case Nil
  then show ?case by simp
next
  case (Cons sym symbols)
  from Cons.prems(1) have
    "andThen (forEachBody rec tt sym acc s) (forEachSymbol rec tt symbols) = Some (Inr acc', s')"
    by simp
  then show ?case
  proof (cases rule: andThen_SomeE)
    case (throws e)
    then show ?thesis by simp
  next
    case (returns acc1 s1)
    from Cons.prems(2) have d: "escapedName sym \<notin> escapedName ` set symbols"
      and ds: "distinct (map escapedName symbols)" by simp_all
    show ?thesis
    proof (cases "symbol = sym")
      case True
      from forEachBody_subcall [OF returns(1) Cons.prems(4) [unfolded True]]
      obtain v where v: "rec u s = Some (Inr v, s1)" and a: "acc1 = setProp sym v acc" by blast
      from forEachSymbol_keeps [OF returns(2) d]
      have "map_of (fst acc') (escapedName sym) = Some (withDescription (symbolComment sym) v)"
        unfolding a by (simp add: map_of_setProp)
      moreover from forEachSymbol_relation [OF traversalRelation_grown g returns(2)]
      obtain new where "typeCache s' = typeCache s1 @ new" by (auto simp: grown_def)
      ultimately show ?thesis using v True by blast
    next
      case False
      with Cons.prems(3) have "symbol \<in> set symbols" by simp
      from Cons.IH [OF returns(2) ds this Cons.prems(4)] show ?thesis .
    qed
  qed
qed

lemma extendClass_subcall:
  assumes g: "obeys grown rec"
    and run: "extendClass rec tt t d s = Some (Inr x, s')"
    and dm: "distinct (map escapedName (filter isPublic (getProperties (tt t))))"
  shows "\<exists>ps rq ad. x = ObjectSchema d ps rq ad
      \<and> (\<forall>symbol u. symbol \<in> set (getProperties (tt t)) \<and> isPublic symbol
            \<and> symbolTypes tt symbol = [u]
           \<longrightarrow> (\<exists>v s1 s2 new. rec u s1 = Some (Inr v, s2) \<and> typeCache s' = typeCache s2 @ new
                 \<and> map_of ps (escapedName symbol)
                     = Some (withDescription (symbolComment symbol) v)))
      \<and> (\<forall>u\<in>set (expandedTypes tt t). \<exists>v s1 s2 new. rec u s1 = Some (Inr v, s2)
           \<and> typeCache s' = typeCache s2 @ new \<and> set (refsOf v) \<subseteq> set (refsOf x))"
proof -
  define index where "index = (case numberIndexType (tt t) of
      Some i \<Rightarrow> Some i | None \<Rightarrow> stringIndexType (tt t))"
  define symbols where "symbols = filter isPublic (getProperties (tt t))"
  from run have "andThen
      (case index of None \<Rightarrow> ok None s | Some i \<Rightarrow> andThen (rec i s) (\<lambda>a. ok (Some a)))
      (\<lambda>ad s1. andThen (forEachSymbol rec tt symbols ([], []) s1)
         (\<lambda>acc. ok (ObjectSchema d (fst acc) (snd acc) ad))) = Some (Inr x, s')"
    unfolding extendClass_def Let_def index_def symbols_def .
  then show ?thesis
  proof (cases rule: andThen_SomeE)
    case (throws e)
    then show ?thesis by simp
  next
    case (returns ad s1)
    from returns(2) show ?thesis
    proof (cases rule: andThen_SomeE)
      case (throws e)
      then show ?thesis by simp
    next
      case inner: (returns acc s2)
      from inner(2) have x: "x = ObjectSchema d (fst acc) (snd acc) ad" and s2: "s2 = s'"
        by (simp_all add: ok_def)
      note members = inner(1) [unfolded s2]
      from forEachSymbol_relation [OF traversalRelation_grown g members]
      obtain new1 where g1: "typeCache s' = typeCache s1 @ new1" by (auto simp: grown_def)
      have m: "\<exists>v s1 s2 new. rec u s1 = Some (Inr v, s2) \<and> typeCache s' = typeCache s2 @ new
          \<and> map_of (fst acc) (escapedName symbol)
              = Some (withDescription (symbolComment symbol) v)"
        if "symbol \<in> set symbols" and "symbolTypes tt symbol = [u]" for symbol u
        using forEachSymbol_subcall [OF g members dm [folded symbols_def] that] .
      have r: "set (refsOf v) \<subseteq> set (refsOf x)"
        if "map_of (fst acc) k = Some (withDescription c v)" for k c v
      proof -
        from map_of_SomeD [OF that] have "(k, withDescription c v) \<in> set (fst acc)" .
        then show ?thesis unfolding x by force
      qed
      have i: "\<exists>v s1 s2 new. rec u s1 = Some (Inr v, s2) \<and> typeCache s' = typeCache s2 @ new
          \<and> set (refsOf v) \<subseteq> set (refsOf x)" if "index = Some u" for u
      proof -
        from returns(1) that have "andThen (rec u s) (\<lambda>a. ok (Some a)) = Some (Inr ad, s1)"
          by simp
        then obtain a where "rec u s = Some (Inr a, s1)" and "ad = Some a"
          by (cases rule: andThen_SomeE) (auto simp: ok_def)
        with g1 show ?thesis unfolding x by auto
      qed
      have e: "\<exists>v s1 s2 new. rec u s1 = Some (Inr v, s2) \<and> typeCache s' = typeCache s2 @ new
          \<and> set (refsOf v) \<subseteq> set (refsOf x)" if "u \<in> set (expandedTypes tt t)" for u
      proof -
        from that consider "index = Some u"
          | symbol where "symbol \<in> set symbols" and "u \<in> set (symbolTypes tt symbol)"
          unfolding expandedTypes_def index_def [symmetric] symbols_def [symmetric]
          by (auto split: option.splits)
        then show ?thesis
        proof cases
          case 1
          then show ?thesis by (rule i)
        next
          case 2
          from m [OF 2(1) symbolTypes_singleton [OF 2(2)]] r show ?thesis by blast
        qed
      qed
      from m e show ?thesis unfolding x symbols_def by auto
    qed
  qed
qed

lemma inline_subcall:
  assumes run: "getSchemaByType (Suc m) hash tt False z s = Some (Inr x, s')"
    and y: "y \<in> set (inlineTypes tt z)" and dm: "distinctMembers tt"
  shows "\<exists>v s1 s2 new. getSchemaByType m hash tt False y s1 = Some (Inr v, s2)
    \<and> typeCache s' = typeCache s2 @ new \<and> set (refsOf v) \<subseteq> set (refsOf x)"
proof (cases "unwrapPromise tt z")
  case (Inl e)
  with y show ?thesis by (simp add: inlineTypes_def)
next
  case (Inr t)
  note g = getSchemaByType_grown [of m hash tt False]
  note run' = run [unfolded getSchemaByType.simps Inr sum.case Let_def]
  note y' = y [unfolded inlineTypes_def Inr sum.case]
  have members: ?thesis
    if a: "andThen (mapSchemas (getSchemaByType m hash tt False) (memberTypes (tt t)) s)
        (\<lambda>xs. ok (f xs)) = Some (Inr x, s')"
      and b: "y \<in> set (memberTypes (tt t))"
      and f: "\<And>xs. set (refsOf (f xs)) = refsOfAll xs" for f
    using a
  proof (cases rule: andThen_SomeE)
    case (throws e)
    then show ?thesis by simp
  next
    case (returns xs s1)
    from returns(2) have x: "x = f xs" and s1: "s1 = s'" by (simp_all add: ok_def)
    from mapSchemas_subcall [OF g returns(1) [unfolded s1] b] obtain v s2 s3 new where
      "getSchemaByType m hash tt False y s2 = Some (Inr v, s3)"
      "typeCache s' = typeCache s3 @ new" "v \<in> set xs" by blast
    moreover from this(3) have "set (refsOf v) \<subseteq> set (refsOf x)"
      unfolding x f refsOfAll_def by blast
    ultimately show ?thesis by blast
  qed
  show ?thesis
  proof (cases "isArrayType (tt t)")
    case True
    with y' have "\<exists>as. typeArguments (tt t) = Some (y # as)"
      by (cases "typeArguments (tt t)") (auto split: list.splits)
    then obtain as where "typeArguments (tt t) = Some (y # as)" by blast
    with run' True have "andThen (getSchemaByType m hash tt False y s)
        (\<lambda>items. ok (ArraySchema (defaultDescription (tt t)) items)) = Some (Inr x, s')"
      by simp
    then obtain v where v: "getSchemaByType m hash tt False y s = Some (Inr v, s')"
      and "x = ArraySchema (defaultDescription (tt t)) v"
      by (cases rule: andThen_SomeE) (auto simp: ok_def)
    then have "typeCache s' = typeCache s' @ []" and "set (refsOf v) \<subseteq> set (refsOf x)"
      by simp_all
    with v show ?thesis by blast
  next
    case notArray: False
    show ?thesis
    proof (cases "flagBoolean (tt t)")
      case True
      with y' notArray show ?thesis by simp
    next
      case notBoolean: False
      show ?thesis
      proof (cases "isUnion (tt t)")
        case True
        show ?thesis
        proof (cases "list_all (\<lambda>u. flagEnumLiteral (tt u)) (memberTypes (tt t))")
          case allEnum: True
          with y' notArray notBoolean True show ?thesis by simp
        next
          case False
          with y' notArray notBoolean True have b: "y \<in> set (memberTypes (tt t))" by simp
          from run' notArray notBoolean True False
          have "andThen (mapSchemas (getSchemaByType m hash tt False) (memberTypes (tt t)) s)
              (\<lambda>xs. ok (OneOfSchema (defaultDescription (tt t)) xs)) = Some (Inr x, s')"
            by simp
          from this b show ?thesis by (rule members) (simp add: refsOfAll_def)
        qed
      next
        case notUnion: False
        show ?thesis
        proof (cases "isIntersection (tt t)")
          case True
          with y' notArray notBoolean notUnion have b: "y \<in> set (memberTypes (tt t))" by simp
          from run' notArray notBoolean notUnion True
          have "andThen (mapSchemas (getSchemaByType m hash tt False) (memberTypes (tt t)) s)
              (\<lambda>xs. ok (AllOfSchema (defaultDescription (tt t)) xs)) = Some (Inr x, s')"
            by simp
          from this b show ?thesis by (rule members) (simp add: refsOfAll_def)
        next
          case notIntersection: False
          show ?thesis
          proof (cases "isClassOrInterface (tt t)")
            case True
            with y' notArray notBoolean notUnion notIntersection show ?thesis by simp
          next
            case notClass: False
            show ?thesis
            proof (cases "flagAnonymous (tt t)")
              case True
              with y' notArray notBoolean notUnion notIntersection notClass
              have b: "y \<in> set (expandedTypes tt t)" by simp
              from run' notArray notBoolean notUnion notIntersection notClass True
              have "extendClass (getSchemaByType m hash tt False) tt t (defaultDescription (tt t)) s
                  = Some (Inr x, s')" by simp
              from extendClass_subcall [OF g this] dm b show ?thesis
                unfolding distinctMembers_def by blast
            next
              case False
              with y' notArray notBoolean notUnion notIntersection notClass show ?thesis
                by simp
            qed
          qed
        qed
      qed
    qed
  qed
qed

lemma occurrence_held:
  assumes dm: "distinctMembers tt" and q: "classTarget tt q = Some t"
    and path: "(q, p) \<in> {(c, p). c \<in> set (inlineTypes tt p)}\<^sup>*"
  shows "getSchemaByType n hash tt False p s = Some (Inr x, s')
    \<Longrightarrow> \<exists>k. cachedName tt s' q = Some k \<and> refPath k \<in> set (refsOf x)"
  using path
proof (induction arbitrary: n s x s' rule: rtrancl_induct)
  case base
  from classTarget_returns [OF q base] show ?case by auto
next
  case (step y z)
  from step.hyps(2) have y: "y \<in> set (inlineTypes tt z)" by simp
  show ?case
  proof (cases n)
    case 0
    with step.prems show ?thesis by (simp add: getSchemaByType.simps)
  next
    case (Suc m)
    from inline_subcall [OF step.prems [unfolded Suc] y dm] obtain v s1 s2 new where
      sub: "getSchemaByType m hash tt False y s1 = Some (Inr v, s2)"
      and g: "typeCache s' = typeCache s2 @ new" and r: "set (refsOf v) \<subseteq> set (refsOf x)"
      by blast
    from step.IH [OF sub] obtain k where "cachedName tt s2 q = Some k"
      and "refPath k \<in> set (refsOf v)" by blast
    with cachedName_grown [OF _ g] r show ?thesis by blast
  qed
qed

lemma registered_fragment:
  assumes c: "classArm tt t" and n: "symbolName (tt t) = Some name"
    and p: "name \<noteq> ''Promise''" "name \<noteq> ''Date''" "name \<noteq> ''Object''"
    and f: "find (\<lambda>c. cachedType c = t) (typeCache s) = None"
    and dm: "distinctMembers tt"
    and run: "getSchemaByType n hash tt False t s = Some (Inr x, s')"
  shows "x = RefSchema None (refPath (allocateName (schemaObjects s) name))
    \<and> cachedName tt s' t = Some (allocateName (schemaObjects s) name)
    \<and> (\<exists>ps rq ad.
          map_of (schemaObjects s') (allocateName (schemaObjects s) name)
            = Some (ObjectSchema (defaultDescription (tt t)) ps rq ad)
          \<and> (\<forall>symbol u. symbol \<in> set (getProperties (tt t)) \<and> isPublic symbol
                \<and> symbolTypes tt symbol = [u] \<and> classTarget tt u \<noteq> None
               \<longrightarrow> (\<exists>k. cachedName tt s' u = Some k
                     \<and> map_of ps (escapedName symbol)
                         = Some (RefSchema (symbolComment symbol) (refPath k))))
          \<and> (\<forall>u q. u \<in> set (expandedTypes tt t)
                \<and> (q, u) \<in> {(c, p). c \<in> set (inlineTypes tt p)}\<^sup>*
                \<and> classTarget tt q \<noteq> None
               \<longrightarrow> (\<exists>k. cachedName tt s' q = Some k
                     \<and> refPath k
                         \<in> set (refsOf (ObjectSchema (defaultDescription (tt t)) ps rq ad)))))"
proof -
  define sname where "sname = allocateName (schemaObjects s) name"
  let ?d = "defaultDescription (tt t)"
  from n p(1) have u: "unwrapPromise tt t = Inr t" by (simp add: unwrapPromise_def)
  with c n p have ct: "classTarget tt t = Some t" by (simp add: classTarget_def)
  obtain m where nm: "n = Suc m" using run by (cases n) (simp_all add: getSchemaByType.simps)
  from run have "addRefTypeSchema hash (getSchemaByType m hash tt True) tt t s = Some (Inr x, s')"
    unfolding nm classTarget_call [OF ct] .
  then show ?thesis
  proof (cases rule: addRefTypeSchema_cases)
    case (hit cache)
    with f show ?thesis by simp
  next
    case noSymbol
    then show ?thesis by simp
  next
    case (expansionThrows name' e)
    then show ?thesis by simp
  next
    case (duplicate name' schema s2)
    then show ?thesis by simp
  next
    case (registered name' schema s2)
    from registered(2) n have name': "name' = name" by simp
    note exp = registered(3) [unfolded name']
    note final = registered(6) [unfolded name']
    obtain m' where m: "m = Suc m'" using exp by (cases m) (simp_all add: getSchemaByType.simps)
    from exp n p have ex: "extendClass (getSchemaByType m' hash tt False) tt t ?d
        (pushEntry s name t) = Some (Inr schema, s2)"
      unfolding m getSchemaByType_classArm [OF u c] by simp
    from grownD [OF getSchemaByType_grown exp] obtain new where
      g2: "typeCache s2 = typeCache (pushEntry s name t) @ new" by blast
    from registerEntry_cache [OF g2, of "hash schema" schema]
    have c': "typeCache s' = typeCache s @ \<lparr>typeName = name, schemaName = sname,
        cachedType = t, hashCode = Some (hash schema)\<rparr> # new"
      unfolding final sname_def .
    have view: "map (\<lambda>c. (cachedType c, schemaName c)) (typeCache s')
        = map (\<lambda>c. (cachedType c, schemaName c)) (typeCache s2)"
      unfolding c' g2 by (simp add: pushEntry_def sname_def)
    have keep: "cachedName tt s' q = Some k"
      if "cachedName tt s3 q = Some k" and "typeCache s2 = typeCache s3 @ new'" for q k s3 new'
      using cachedName_grown [OF that] cachedName_view [OF view] by simp
    from dm have dt: "distinct (map escapedName (filter isPublic (getProperties (tt t))))"
      by (simp add: distinctMembers_def)
    from extendClass_subcall [OF getSchemaByType_grown ex dt] obtain ps rq ad where
      x: "schema = ObjectSchema ?d ps rq ad"
      and mem0: "\<forall>symbol u. symbol \<in> set (getProperties (tt t)) \<and> isPublic symbol
            \<and> symbolTypes tt symbol = [u]
           \<longrightarrow> (\<exists>v s1 s3 new. getSchemaByType m' hash tt False u s1 = Some (Inr v, s3)
                 \<and> typeCache s2 = typeCache s3 @ new
                 \<and> map_of ps (escapedName symbol)
                     = Some (withDescription (symbolComment symbol) v))"
      and occ0: "\<forall>u\<in>set (expandedTypes tt t).
          \<exists>v s1 s3 new. getSchemaByType m' hash tt False u s1 = Some (Inr v, s3)
           \<and> typeCache s2 = typeCache s3 @ new \<and> set (refsOf v) \<subseteq> set (refsOf schema)"
      by (elim exE conjE)
    have mem: "\<exists>v s1 s3 new. getSchemaByType m' hash tt False u s1 = Some (Inr v, s3)
                \<and> typeCache s2 = typeCache s3 @ new
                \<and> map_of ps (escapedName symbol)
                    = Some (withDescription (symbolComment symbol) v)"
      if "symbol \<in> set (getProperties (tt t))" "isPublic symbol" "symbolTypes tt symbol = [u]"
      for symbol u
      using mem0 [rule_format, of symbol u] that by simp
    have occ: "\<exists>v s1 s3 new. getSchemaByType m' hash tt False u s1 = Some (Inr v, s3)
                \<and> typeCache s2 = typeCache s3 @ new \<and> set (refsOf v) \<subseteq> set (refsOf schema)"
      if "u \<in> set (expandedTypes tt t)" for u
      using occ0 that by (rule bspec)
    have a: "x = RefSchema None (refPath sname)" using registered(5) by (simp add: sname_def name')
    have b: "cachedName tt s' t = Some sname"
      using f ct unfolding cachedName_def c' by (simp add: find_append_cases)
    have reg: "map_of (schemaObjects s') sname = Some (ObjectSchema ?d ps rq ad)"
      unfolding final registerEntry_def x [symmetric] by (simp add: map_of_assign sname_def)
    have members: "\<exists>k. cachedName tt s' u = Some k
        \<and> map_of ps (escapedName symbol) = Some (RefSchema (symbolComment symbol) (refPath k))"
      if "symbol \<in> set (getProperties (tt t))" "isPublic symbol" "symbolTypes tt symbol = [u]"
        "classTarget tt u \<noteq> None" for symbol u
    proof -
      from mem [OF that(1,2,3)] obtain v s1 s3 new' where
        sub: "getSchemaByType m' hash tt False u s1 = Some (Inr v, s3)"
        and g: "typeCache s2 = typeCache s3 @ new'"
        and v: "map_of ps (escapedName symbol) = Some (withDescription (symbolComment symbol) v)"
        by blast
      from that(4) obtain t' where "classTarget tt u = Some t'" by blast
      from classTarget_returns [OF this sub] obtain k where
        "v = RefSchema None (refPath k)" and "cachedName tt s3 u = Some k" by blast
      with keep [OF _ g] v show ?thesis by auto
    qed
    have occurrences: "\<exists>k. cachedName tt s' q = Some k
        \<and> refPath k \<in> set (refsOf (ObjectSchema ?d ps rq ad))"
      if "u \<in> set (expandedTypes tt t)" "(q, u) \<in> {(c, p). c \<in> set (inlineTypes tt p)}\<^sup>*"
        "classTarget tt q \<noteq> None" for u q
    proof -
      from occ [OF that(1)] obtain v s1 s3 new' where
        sub: "getSchemaByType m' hash tt False u s1 = Some (Inr v, s3)"
        and g: "typeCache s2 = typeCache s3 @ new'"
        and v: "set (refsOf v) \<subseteq> set (refsOf schema)" by blast
      from that(3) obtain t' where "classTarget tt q = Some t'" by blast
      from occurrence_held [OF dm this that(2) sub] obtain k where
        "cachedName tt s3 q = Some k" and "refPath k \<in> set (refsOf v)" by blast
      with keep [OF _ g] v show ?thesis unfolding x by blast
    qed
    show ?thesis unfolding sname_def [symmetric]
    proof (intro conjI)
      show "x = RefSchema None (refPath sname)" by (rule a)
      show "cachedName tt s' t = Some sname" by (rule b)
      show "\<exists>ps rq ad. map_of (schemaObjects s') sname = Some (ObjectSchema ?d ps rq ad)
          \<and> (\<forall>symbol u. symbol \<in> set (getProperties (tt t)) \<and> isPublic symbol
                \<and> symbolTypes tt symbol = [u] \<and> classTarget tt u \<noteq> None
               \<longrightarrow> (\<exists>k. cachedName tt s' u = Some k
                     \<and> map_of ps (escapedName symbol)
                         = Some (RefSchema (symbolComment symbol) (refPath k))))
          \<and> (\<forall>u q. u \<in> set (expandedTypes tt t)
                \<and> (q, u) \<in> {(c, p). c \<in> set (inlineTypes tt p)}\<^sup>*
                \<and> classTarget tt q \<noteq> None
               \<longrightarrow> (\<exists>k. cachedName tt s' q = Some k
                     \<and> refPath k \<in> set (refsOf (ObjectSchema ?d ps rq ad))))"
      proof -
        have m': "\<forall>symbol u. symbol \<in> set (getProperties (tt t)) \<and> isPublic symbol
                \<and> symbolTypes tt symbol = [u] \<and> classTarget tt u \<noteq> None
               \<longrightarrow> (\<exists>k. cachedName tt s' u = Some k
                     \<and> map_of ps (escapedName symbol)
                         = Some (RefSchema (symbolComment symbol) (refPath k)))"
          using members by (intro allI impI) (elim conjE)
        have o': "\<forall>u q. u \<in> set (expandedTypes tt t)
                \<and> (q, u) \<in> {(c, p). c \<in> set (inlineTypes tt p)}\<^sup>*
                \<and> classTarget tt q \<noteq> None
               \<longrightarrow> (\<exists>k. cachedName tt s' q = Some k
                     \<and> refPath k \<in> set (refsOf (ObjectSchema ?d ps rq ad)))"
          using occurrences by (intro allI impI) (elim conjE)
        show ?thesis by (intro exI conjI) (rule reg, rule m', rule o')
      qed
    qed
  qed
qed

section \<open>Cycles through class and interface types\<close>

text \<open>
  C3. Take a type table with finitely many class or interface types in which the relation
  "a call on \<open>p\<close> derives \<open>c\<close> without passing through \<open>typeCache\<close>" is well-founded,
  that is, every cycle passes through a class or interface type. Then every call of
  \<open>getSchemaByType\<close>, from any state and with any hash function, ends (by returning or
  by throwing) at some depth. The mechanism: once line 122 has pushed the entry of a
  class or interface type \<open>t\<close>, in that state and in every state whose cache extends it
  a call on \<open>t\<close> in reference mode returns the \<open>$ref\<close> of the name chosen at the push,
  at depth one and without changing the state. The registered fragment: let \<open>t\<close> be a
  class or interface type called neither \<open>Promise\<close>, \<open>Date\<close> nor \<open>Object\<close> and not in
  \<open>typeCache\<close>, in a table whose types have members of different names. When a call on
  \<open>t\<close> in reference mode returns, it returns the \<open>$ref\<close> of the name chosen at the push,
  \<open>typeCache\<close> holds that name for \<open>t\<close>, and \<open>schemaObjects\<close> holds under that name
  (\<open>map_of\<close> reads a key) an object fragment
  \<^item> in which every member whose type is a class or interface type (\<open>t\<close> itself, a type
    that was being expanded when the call was made, or one registered during the call) is
    the \<open>$ref\<close> of the name that \<open>typeCache\<close> holds for that type, with the comment of
    the member and nothing else, and
  \<^item> which contains that \<open>$ref\<close> for every such type that a member or the index type
    reaches through arrays, unions, intersections, anonymous object types and \<open>Promise\<close>
    wrappers.
\<close>

theorem nominal_cycles_terminate:
  assumes "finite {t. isClassOrInterface (tt t)}"
    and "wf {(c, p). c \<in> set (inlineTypes tt p)}"
  shows "(\<exists>n r s'. getSchemaByType n hash tt ext t s = Some (r, s'))
    \<and> (\<forall>name new s2 m.
          classArm tt t \<and> symbolName (tt t) = Some name
          \<and> name \<noteq> ''Promise'' \<and> name \<noteq> ''Date'' \<and> name \<noteq> ''Object''
          \<and> find (\<lambda>c. cachedType c = t) (typeCache s) = None
          \<and> typeCache s2 = typeCache (pushEntry s name t) @ new
          \<longrightarrow> getSchemaByType (Suc m) hash tt False t s2
              = Some (Inr (RefSchema None (refPath (allocateName (schemaObjects s) name))), s2))
    \<and> (\<forall>n name x s'.
          classArm tt t \<and> symbolName (tt t) = Some name
          \<and> name \<noteq> ''Promise'' \<and> name \<noteq> ''Date'' \<and> name \<noteq> ''Object''
          \<and> find (\<lambda>c. cachedType c = t) (typeCache s) = None
          \<and> distinctMembers tt
          \<and> getSchemaByType n hash tt False t s = Some (Inr x, s')
          \<longrightarrow> x = RefSchema None (refPath (allocateName (schemaObjects s) name))
            \<and> cachedName tt s' t = Some (allocateName (schemaObjects s) name)
            \<and> (\<exists>ps rq ad.
                  map_of (schemaObjects s') (allocateName (schemaObjects s) name)
                    = Some (ObjectSchema (defaultDescription (tt t)) ps rq ad)
                  \<and> (\<forall>symbol u. symbol \<in> set (getProperties (tt t)) \<and> isPublic symbol
                        \<and> symbolTypes tt symbol = [u] \<and> classTarget tt u \<noteq> None
                       \<longrightarrow> (\<exists>k. cachedName tt s' u = Some k
                             \<and> map_of ps (escapedName symbol)
                                 = Some (RefSchema (symbolComment symbol) (refPath k))))
                  \<and> (\<forall>u q. u \<in> set (expandedTypes tt t)
                        \<and> (q, u) \<in> {(c, p). c \<in> set (inlineTypes tt p)}\<^sup>*
                        \<and> classTarget tt q \<noteq> None
                       \<longrightarrow> (\<exists>k. cachedName tt s' q = Some k
                             \<and> refPath k \<in> set (refsOf
                                 (ObjectSchema (defaultDescription (tt t)) ps rq ad))))))"
proof (intro conjI)
  from traversal_halts [OF assms, of hash ext t s]
  show "\<exists>n r s'. getSchemaByType n hash tt ext t s = Some (r, s')" by auto
next
  show "\<forall>name new s2 m.
          classArm tt t \<and> symbolName (tt t) = Some name
          \<and> name \<noteq> ''Promise'' \<and> name \<noteq> ''Date'' \<and> name \<noteq> ''Object''
          \<and> find (\<lambda>c. cachedType c = t) (typeCache s) = None
          \<and> typeCache s2 = typeCache (pushEntry s name t) @ new
          \<longrightarrow> getSchemaByType (Suc m) hash tt False t s2
              = Some (Inr (RefSchema None (refPath (allocateName (schemaObjects s) name))), s2)"
    by (intro allI impI) (elim conjE, rule cached_reference)
next
  show "\<forall>n name x s'.
          classArm tt t \<and> symbolName (tt t) = Some name
          \<and> name \<noteq> ''Promise'' \<and> name \<noteq> ''Date'' \<and> name \<noteq> ''Object''
          \<and> find (\<lambda>c. cachedType c = t) (typeCache s) = None
          \<and> distinctMembers tt
          \<and> getSchemaByType n hash tt False t s = Some (Inr x, s')
          \<longrightarrow> x = RefSchema None (refPath (allocateName (schemaObjects s) name))
            \<and> cachedName tt s' t = Some (allocateName (schemaObjects s) name)
            \<and> (\<exists>ps rq ad.
                  map_of (schemaObjects s') (allocateName (schemaObjects s) name)
                    = Some (ObjectSchema (defaultDescription (tt t)) ps rq ad)
                  \<and> (\<forall>symbol u. symbol \<in> set (getProperties (tt t)) \<and> isPublic symbol
                        \<and> symbolTypes tt symbol = [u] \<and> classTarget tt u \<noteq> None
                       \<longrightarrow> (\<exists>k. cachedName tt s' u = Some k
                             \<and> map_of ps (escapedName symbol)
                                 = Some (RefSchema (symbolComment symbol) (refPath k))))
                  \<and> (\<forall>u q. u \<in> set (expandedTypes tt t)
                        \<and> (q, u) \<in> {(c, p). c \<in> set (inlineTypes tt p)}\<^sup>*
                        \<and> classTarget tt q \<noteq> None
                       \<longrightarrow> (\<exists>k. cachedName tt s' q = Some k
                             \<and> refPath k \<in> set (refsOf
                                 (ObjectSchema (defaultDescription (tt t)) ps rq ad)))))"
    by (intro allI impI) (elim conjE, rule registered_fragment)
qed

lemma mutualTable_class_run:
  "getSchemaByType 5 structuralHash mutualTable False 1 emptyConfig
     = Some (Inr (RefSchema None ''#/components/schemas/A''), mutualRegistry)"
  by (simp add: run_defs mutualTable_def mutualSchemaA_def mutualSchemaB_def mutualRegistry_def
      structuralHash_def)

lemma mutualTable_partner_run:
  "getSchemaByType 3 structuralHash mutualTable False 2 (pushEntry emptyConfig ''A'' 1)
     = Some (Inr (RefSchema None ''#/components/schemas/B''), partnerRegistry)"
  by (simp add: run_defs mutualTable_def mutualSchemaB_def partnerRegistry_def
      structuralHash_def pushEntry_def emptyConfig_def)

lemma distinctMembers_mutualTable: "distinctMembers mutualTable"
  by (simp add: distinctMembers_def mutualTable_def plainType_def)

lemma mutualTable_run:
  "getSchemaByType 6 structuralHash mutualTable False 0 emptyConfig
     = Some (Inr (ObjectSchema None [(''first'', RefSchema None ''#/components/schemas/A'')]
         [''first''] None), mutualRegistry)"
  by (simp add: run_defs mutualTable_def mutualSchemaA_def mutualSchemaB_def mutualRegistry_def
      structuralHash_def)

lemma finite_classes_mutualTable: "finite {t. isClassOrInterface (mutualTable t)}"
proof -
  have "{t. isClassOrInterface (mutualTable t)} \<subseteq> {1, 2}"
    by (auto simp: mutualTable_def plainType_def split: if_splits)
  then show ?thesis by (rule finite_subset) simp
qed

lemma wf_inline_mutualTable: "wf {(c, p). c \<in> set (inlineTypes mutualTable p)}"
proof -
  have "{(c, p). c \<in> set (inlineTypes mutualTable p)} \<subseteq> measure (\<lambda>t. if t = 0 then 1 else 0)"
    by (auto simp: inlineTypes_def unwrapPromise_def mutualTable_def plainType_def
        expandedTypes_def symbolTypes_def isPublic_def isFunctionDeclaration_def property_def
        declaredAs_def split: if_splits)
  then show ?thesis by (rule wf_subset [OF wf_measure])
qed

theorem nominal_cycles_terminate_witness:
  "finite {t. isClassOrInterface (mutualTable t)}
    \<and> wf {(c, p). c \<in> set (inlineTypes mutualTable p)}
    \<and> distinctMembers mutualTable
    \<and> (\<exists>n r s'. getSchemaByType n structuralHash mutualTable False 0 emptyConfig = Some (r, s'))
    \<and> getSchemaByType 6 structuralHash mutualTable False 0 emptyConfig
        = Some (Inr (ObjectSchema None [(''first'', RefSchema None ''#/components/schemas/A'')]
            [''first''] None), mutualRegistry)
    \<and> getSchemaByType 1 structuralHash mutualTable False 1 (pushEntry emptyConfig ''A'' 1)
        = Some (Inr (RefSchema None ''#/components/schemas/A''), pushEntry emptyConfig ''A'' 1)
    \<and> getSchemaByType 5 structuralHash mutualTable False 1 emptyConfig
        = Some (Inr (RefSchema None ''#/components/schemas/A''), mutualRegistry)
    \<and> (\<exists>ps rq ad. map_of (schemaObjects mutualRegistry) ''A'' = Some (ObjectSchema None ps rq ad)
          \<and> map_of ps ''b'' = Some (RefSchema None ''#/components/schemas/B'')
          \<and> ''#/components/schemas/B'' \<in> set (refsOf (ObjectSchema None ps rq ad)))
    \<and> getSchemaByType 3 structuralHash mutualTable False 2 (pushEntry emptyConfig ''A'' 1)
        = Some (Inr (RefSchema None ''#/components/schemas/B''), partnerRegistry)
    \<and> (\<exists>ps rq ad. map_of (schemaObjects partnerRegistry) ''B'' = Some (ObjectSchema None ps rq ad)
          \<and> map_of ps ''a'' = Some (RefSchema None ''#/components/schemas/A'')
          \<and> ''#/components/schemas/A'' \<in> set (refsOf (ObjectSchema None ps rq ad)))"
proof -
  note t = nominal_cycles_terminate [OF finite_classes_mutualTable wf_inline_mutualTable,
      of structuralHash]
  from t [of False 0 emptyConfig]
  have a: "\<exists>n r s'. getSchemaByType n structuralHash mutualTable False 0 emptyConfig = Some (r, s')"
    by (rule conjunct1)
  have arm: "classArm mutualTable 1" "symbolName (mutualTable 1) = Some ''A''"
    "classArm mutualTable 2" "symbolName (mutualTable 2) = Some ''B''"
    by (simp_all add: classArm_def mutualTable_def plainType_def)
  have fresh: "find (\<lambda>c. cachedType c = 1) (typeCache (emptyConfig :: schema config)) = None"
    "find (\<lambda>c. cachedType c = 2) (typeCache (pushEntry (emptyConfig :: schema config) ''A'' 1))
      = None"
    by (simp_all add: emptyConfig_def pushEntry_def)
  have "typeCache (pushEntry (emptyConfig :: schema config) ''A'' 1)
      = typeCache (pushEntry emptyConfig ''A'' 1) @ []" by simp
  with arm fresh
    t [of False 1 emptyConfig, THEN conjunct2, THEN conjunct1, rule_format,
      of "''A''" "pushEntry emptyConfig ''A'' 1" "[]" 0]
  have "getSchemaByType (Suc 0) structuralHash mutualTable False 1 (pushEntry emptyConfig ''A'' 1)
      = Some (Inr (RefSchema None (refPath (allocateName
          (schemaObjects (emptyConfig :: schema config)) ''A''))), pushEntry emptyConfig ''A'' 1)"
    by simp
  then have b: "getSchemaByType 1 structuralHash mutualTable False 1 (pushEntry emptyConfig ''A'' 1)
      = Some (Inr (RefSchema None ''#/components/schemas/A''), pushEntry emptyConfig ''A'' 1)"
    by (simp add: allocateName_def hasKey_def emptyConfig_def refPath_def)
  have members: "property ''b'' 2 \<in> set (getProperties (mutualTable 1))"
    "property ''a'' 1 \<in> set (getProperties (mutualTable 2))"
    "isPublic (property ''b'' 2)" "isPublic (property ''a'' 1)"
    "symbolTypes mutualTable (property ''b'' 2) = [2]"
    "symbolTypes mutualTable (property ''a'' 1) = [1]"
    "classTarget mutualTable 2 \<noteq> None" "classTarget mutualTable 1 \<noteq> None"
    "2 \<in> set (expandedTypes mutualTable 1)" "1 \<in> set (expandedTypes mutualTable 2)"
    by (simp_all add: mutualTable_def plainType_def property_def declaredAs_def isPublic_def
        symbolTypes_def isFunctionDeclaration_def classTarget_def unwrapPromise_def classArm_def
        expandedTypes_def)
  have names: "cachedName mutualTable mutualRegistry 2 = Some ''B''"
    "cachedName mutualTable partnerRegistry 1 = Some ''A''"
    by (simp_all add: cachedName_def classTarget_def unwrapPromise_def classArm_def
        mutualTable_def plainType_def mutualRegistry_def partnerRegistry_def)
  have d: "defaultDescription (mutualTable 1) = None" "defaultDescription (mutualTable 2) = None"
    by (simp_all add: defaultDescription_def mutualTable_def plainType_def)
  have q: "symbolComment (property k u) = None" "escapedName (property k u) = k" for k u
    by (simp_all add: property_def)
  from t [of False 1 emptyConfig, THEN conjunct2, THEN conjunct2, rule_format,
      of "''A''" 5 "RefSchema None ''#/components/schemas/A''" mutualRegistry]
    arm fresh distinctMembers_mutualTable mutualTable_class_run
  obtain ps rq ad where
    r1: "map_of (schemaObjects mutualRegistry)
        (allocateName (schemaObjects (emptyConfig :: schema config)) ''A'')
      = Some (ObjectSchema None ps rq ad)"
    and m1: "\<forall>symbol u. symbol \<in> set (getProperties (mutualTable 1)) \<and> isPublic symbol
        \<and> symbolTypes mutualTable symbol = [u] \<and> classTarget mutualTable u \<noteq> None
       \<longrightarrow> (\<exists>k. cachedName mutualTable mutualRegistry u = Some k
             \<and> map_of ps (escapedName symbol)
                 = Some (RefSchema (symbolComment symbol) (refPath k)))"
    and o1: "\<forall>u q. u \<in> set (expandedTypes mutualTable 1)
        \<and> (q, u) \<in> {(c, p). c \<in> set (inlineTypes mutualTable p)}\<^sup>*
        \<and> classTarget mutualTable q \<noteq> None
       \<longrightarrow> (\<exists>k. cachedName mutualTable mutualRegistry q = Some k
             \<and> refPath k \<in> set (refsOf (ObjectSchema None ps rq ad)))"
    unfolding d by auto
  from m1 [rule_format, of "property ''b'' 2" 2] members names
  have "map_of ps ''b'' = Some (RefSchema None ''#/components/schemas/B'')"
    by (simp add: q refPath_def)
  moreover from o1 [rule_format, of 2 2] members names
  have "''#/components/schemas/B'' \<in> set (refsOf (ObjectSchema None ps rq ad))"
    by (simp add: refPath_def)
  moreover from r1 have "map_of (schemaObjects mutualRegistry) ''A''
      = Some (ObjectSchema None ps rq ad)"
    by (simp add: allocateName_def hasKey_def emptyConfig_def)
  ultimately have c: "\<exists>ps rq ad. map_of (schemaObjects mutualRegistry) ''A''
        = Some (ObjectSchema None ps rq ad)
      \<and> map_of ps ''b'' = Some (RefSchema None ''#/components/schemas/B'')
      \<and> ''#/components/schemas/B'' \<in> set (refsOf (ObjectSchema None ps rq ad))"
    by blast
  from t [of False 2 "pushEntry emptyConfig ''A'' 1", THEN conjunct2, THEN conjunct2,
      rule_format, of "''B''" 3 "RefSchema None ''#/components/schemas/B''" partnerRegistry]
    arm fresh distinctMembers_mutualTable mutualTable_partner_run
  obtain ps' rq' ad' where
    r2: "map_of (schemaObjects partnerRegistry)
        (allocateName (schemaObjects (pushEntry (emptyConfig :: schema config) ''A'' 1)) ''B'')
      = Some (ObjectSchema None ps' rq' ad')"
    and m2: "\<forall>symbol u. symbol \<in> set (getProperties (mutualTable 2)) \<and> isPublic symbol
        \<and> symbolTypes mutualTable symbol = [u] \<and> classTarget mutualTable u \<noteq> None
       \<longrightarrow> (\<exists>k. cachedName mutualTable partnerRegistry u = Some k
             \<and> map_of ps' (escapedName symbol)
                 = Some (RefSchema (symbolComment symbol) (refPath k)))"
    and o2: "\<forall>u q. u \<in> set (expandedTypes mutualTable 2)
        \<and> (q, u) \<in> {(c, p). c \<in> set (inlineTypes mutualTable p)}\<^sup>*
        \<and> classTarget mutualTable q \<noteq> None
       \<longrightarrow> (\<exists>k. cachedName mutualTable partnerRegistry q = Some k
             \<and> refPath k \<in> set (refsOf (ObjectSchema None ps' rq' ad')))"
    unfolding d by auto
  from m2 [rule_format, of "property ''a'' 1" 1] members names
  have "map_of ps' ''a'' = Some (RefSchema None ''#/components/schemas/A'')"
    by (simp add: q refPath_def)
  moreover from o2 [rule_format, of 1 1] members names
  have "''#/components/schemas/A'' \<in> set (refsOf (ObjectSchema None ps' rq' ad'))"
    by (simp add: refPath_def)
  moreover from r2 have "map_of (schemaObjects partnerRegistry) ''B''
      = Some (ObjectSchema None ps' rq' ad')"
    by (simp add: allocateName_def hasKey_def emptyConfig_def pushEntry_def)
  ultimately have e: "\<exists>ps rq ad. map_of (schemaObjects partnerRegistry) ''B''
        = Some (ObjectSchema None ps rq ad)
      \<and> map_of ps ''a'' = Some (RefSchema None ''#/components/schemas/A'')
      \<and> ''#/components/schemas/A'' \<in> set (refsOf (ObjectSchema None ps rq ad))"
    by blast
  from a b c e finite_classes_mutualTable wf_inline_mutualTable distinctMembers_mutualTable
    mutualTable_run mutualTable_class_run mutualTable_partner_run
  show ?thesis by (intro conjI)
qed

section \<open>Calls that do not throw\<close>
























section \<open>What holds of the deduplication branch and of the member filter\<close>

text \<open>
  Whenever line 127 finds an entry, the call throws: lines 128 to 133 never return.
\<close>

lemma duplicate_branch_throws:
  assumes "find (\<lambda>c. cachedType c = t) (typeCache s) = None"
    and "symbolName (tt t) = Some name"
    and "rec t (pushEntry s name t) = Some (Inr schema, s2)"
    and "0 \<le> findIndex (\<lambda>c. hashCode c = Some (hash schema) \<and> typeName c = name) (typeCache s2)"
  shows "addRefTypeSchema hash rec tt t s = Some (Inl TypeError, dropEntry s name s2)"
  unfolding addRefTypeSchema_miss [where tt = tt, OF assms(1,2)] assms(3)
  using assms(4) by (simp add: andThen_def throw_def)

text \<open>
  The names in \<open>properties\<close> and \<open>required\<close> of an expanded type are names of members
  that \<open>isKept\<close> holds of: private and protected members, members declared as methods or
  arrow functions, and members without a type on the symbol whose declared type is
  \<open>Function\<close> or an arrow function are in neither.
\<close>

lemma setProp_names:
  "set (map fst (fst (setProp symbol v acc))) \<union> set (snd (setProp symbol v acc))
    \<subseteq> insert (escapedName symbol) (set (map fst (fst acc)) \<union> set (snd acc))"
  by (auto simp: setProp_def Let_def set_map_fst_assign simp del: set_map)

lemma forEachBody_dropped:
  assumes "forEachBody rec tt symbol acc s = Some (Inr acc', s')"
    and "isPublic symbol" and "\<not> isKept tt symbol"
  shows "acc' = acc"
  using assms unfolding forEachBody_def isKept_def Let_def
  by (auto simp: ok_def split: if_splits option.splits)

lemma forEachBody_names:
  assumes "forEachBody rec tt symbol acc s = Some (Inr acc', s')"
    and "isPublic symbol"
  shows "set (map fst (fst acc')) \<union> set (snd acc')
    \<subseteq> set (map fst (fst acc)) \<union> set (snd acc)
      \<union> (if isKept tt symbol then {escapedName symbol} else {})"
proof (cases "isKept tt symbol")
  case True
  from forEachBody_result [OF assms(1)] setProp_names [of symbol _ acc]
  have "set (map fst (fst acc')) \<union> set (snd acc')
      \<subseteq> insert (escapedName symbol) (set (map fst (fst acc)) \<union> set (snd acc))"
    by (elim disjE exE) (simp only:, blast, simp only:)
  with True show ?thesis by auto
next
  case False
  with assms have "acc' = acc" by (intro forEachBody_dropped)
  then show ?thesis by simp
qed

lemma forEachSymbol_names:
  "forEachSymbol rec tt symbols acc s = Some (Inr acc', s') \<Longrightarrow> \<forall>symbol\<in>set symbols. isPublic symbol
    \<Longrightarrow> set (map fst (fst acc')) \<union> set (snd acc')
      \<subseteq> set (map fst (fst acc)) \<union> set (snd acc)
        \<union> escapedName ` {symbol \<in> set symbols. isKept tt symbol}"
proof (induction symbols arbitrary: acc s)
  case Nil
  then show ?case by (simp add: ok_def)
next
  case (Cons symbol symbols)
  from Cons.prems(1) have
    "andThen (forEachBody rec tt symbol acc s) (forEachSymbol rec tt symbols) = Some (Inr acc', s')"
    by simp
  then show ?case
  proof (cases rule: andThen_SomeE)
    case (throws e)
    then show ?thesis by simp
  next
    case (returns acc1 s1)
    from Cons.prems(2) have p: "isPublic symbol" and ps: "\<forall>symbol\<in>set symbols. isPublic symbol"
      by simp_all
    note a = forEachBody_names [OF returns(1) p]
    note b = Cons.IH [OF returns(2) ps]
    define A where "A = set (map fst (fst acc)) \<union> set (snd acc)"
    define A1 where "A1 = set (map fst (fst acc1)) \<union> set (snd acc1)"
    define A' where "A' = set (map fst (fst acc')) \<union> set (snd acc')"
    define K where "K = escapedName ` {symbol \<in> set symbols. isKept tt symbol}"
    define k where "k = (if isKept tt symbol then {escapedName symbol} else {})"
    have "escapedName ` {x \<in> set (symbol # symbols). isKept tt x} = k \<union> K"
      unfolding k_def K_def by auto
    moreover from a have "A1 \<subseteq> A \<union> k" unfolding A1_def A_def k_def .
    moreover from b have "A' \<subseteq> A1 \<union> K" unfolding A'_def A1_def K_def .
    ultimately show ?thesis unfolding A'_def [symmetric] A_def [symmetric] by blast
  qed
qed

lemma extendClass_members:
  assumes "extendClass rec tt t d s = Some (Inr (ObjectSchema d' ps rq ad), s')"
  shows "set (map fst ps) \<union> set rq
    \<subseteq> escapedName ` {symbol \<in> set (getProperties (tt t)). isKept tt symbol}"
  using assms unfolding extendClass_def Let_def
proof (cases rule: andThen_SomeE)
  case (throws e)
  then show ?thesis by simp
next
  case (returns ad1 s1)
  from returns(2) show ?thesis
  proof (cases rule: andThen_SomeE)
    case (throws e)
    then show ?thesis by simp
  next
    case inner: (returns acc s2)
    from inner(2) have "ps = fst acc" and "rq = snd acc" by (simp_all add: ok_def)
    moreover from forEachSymbol_names [OF inner(1)]
    have "set (map fst (fst acc)) \<union> set (snd acc)
        \<subseteq> escapedName ` {symbol \<in> set (filter isPublic (getProperties (tt t))). isKept tt symbol}"
      by simp
    ultimately show ?thesis by auto
  qed
qed

end
